theory Spec2Isabelle
  imports Complex_Main "HOL-Library.Log_Nat" "HOL-Library.Multiset"
begin

chapter \<open>Foot pressure analyzer: the analysis engine of the web backend\<close>

text \<open>
  The development embeds \<^verbatim>\<open>FootPressureAnalyzer\<close> of
  \<^verbatim>\<open>foot_pressure_web/backend/analyzer_engine.py\<close>: ingestion of the row mapping,
  the noise filter, the centre of pressure, the separation of the two feet, the zones
  and the pressure distribution, and the arch classification.

  Conventions of the model:
  \<^item> a numpy integer array is a list of rows, \<open>int list list\<close>, whose cells are 64-bit
    integers (\<open>int64_array\<close>); \<^verbatim>\<open>np.array([])\<close> is the empty list. \<^verbatim>\<open>np.sum\<close> over such an
    array wraps around modulo \<open>2 ^ 64\<close>, and so does \<open>np_sum\<close>;
  \<^item> a Python float and a \<^verbatim>\<open>np.float64\<close> is the rational number it denotes; every
    floating-point operation is the exact operation followed by \<open>double\<close>, the rounding
    to the nearest binary64 number with ties to even (gradual underflow included; no
    overflow to infinity, which the operands that occur here cannot reach);
  \<^item> of \<^verbatim>\<open>scipy.ndimage\<close>, the functions \<^verbatim>\<open>label\<close>, \<^verbatim>\<open>find_objects\<close> and
    \<^verbatim>\<open>binary_opening\<close> are modelled by what they compute for the arguments the engine
    passes; \<^verbatim>\<open>center_of_mass\<close>, whose value depends on the order in which numpy adds
    floats, is a parameter of the functions that call it.
\<close>

section \<open>Binary64 arithmetic\<close>

text \<open>Rounding a rational to the nearest integer, ties to the even one.\<close>

definition rnd_even :: "rat \<Rightarrow> int" where
  "rnd_even v = (let f = \<lfloor>v\<rfloor>; d = v - of_int f in
     if d < 1/2 then f else if 1/2 < d then f + 1 else if even f then f else f + 1)"

text \<open>
  The non-negative binary64 numbers are the numbers \<open>m * 2 ^ s / 2 ^ 1074\<close> with a
  significand \<open>m\<close> of at most 53 bits; \<open>ulp_shift x\<close> is the \<open>s\<close> of the binade of \<open>x\<close>
  (0 in the subnormal range).
\<close>

definition tiny_scale :: "rat" where
  "tiny_scale = 2 ^ 1074"

definition ulp_shift :: "rat \<Rightarrow> nat" where
  "ulp_shift x = nat (bitlen \<lfloor>x * tiny_scale\<rfloor> - 53)"

definition double_pos :: "rat \<Rightarrow> rat" where
  "double_pos x = (let s = ulp_shift x
     in of_int (rnd_even (x * tiny_scale / 2 ^ s)) * 2 ^ s / tiny_scale)"

definition double :: "rat \<Rightarrow> rat" where
  "double x = (if x < 0 then - double_pos (- x) else double_pos x)"

text \<open>Conversion of an integer to a float, and the float operations the engine uses.\<close>

definition float_of_int :: "int \<Rightarrow> rat" where
  "float_of_int n = double (of_int n)"

definition fmul :: "rat \<Rightarrow> rat \<Rightarrow> rat" where
  "fmul a b = double (a * b)"

definition fdiv :: "rat \<Rightarrow> rat \<Rightarrow> rat" where
  "fdiv a b = double (a / b)"

definition fadd :: "rat \<Rightarrow> rat \<Rightarrow> rat" where
  "fadd a b = double (a + b)"

definition fsub :: "rat \<Rightarrow> rat \<Rightarrow> rat" where
  "fsub a b = double (a - b)"

text \<open>\<^verbatim>\<open>int(x)\<close> of a float truncates towards zero.\<close>

definition trunc_int :: "rat \<Rightarrow> int" where
  "trunc_int x = (if 0 \<le> x then \<lfloor>x\<rfloor> else \<lceil>x\<rceil>)"

section \<open>Configuration\<close>

text \<open>
  \<^verbatim>\<open>config.py\<close>: \<^verbatim>\<open>ANALYSIS_PARAMS['noise_threshold'] = 5\<close>,
  \<^verbatim>\<open>FOOT_TYPE_CRITERIA = {'high_arch': 0.21, 'normal': 0.26}\<close> and
  \<^verbatim>\<open>VISUALIZATION['regions'] = {'hindfoot_ratio': 0.3, 'midfoot_ratio': 0.4, ...}\<close>; the
  engine's \<^verbatim>\<open>.get\<close> defaults are the same values. A float literal denotes the binary64
  number nearest to its decimal value.
\<close>

definition noise_threshold :: "int" where
  "noise_threshold = 5"

definition high_arch :: "rat" where
  "high_arch = double (21 / 100)"

definition normal :: "rat" where
  "normal = double (26 / 100)"

definition hindfoot_ratio :: "rat" where
  "hindfoot_ratio = double (3 / 10)"

definition midfoot_ratio :: "rat" where
  "midfoot_ratio = double (4 / 10)"

section \<open>Zones of the bounding box\<close>

record zone =
  start :: int
  stop :: int

record zones =
  hind :: zone
  mid :: zone
  fore :: zone

text \<open>
  \<^verbatim>\<open>_get_foot_zone_indices(foot_bbox, total_rows)\<close>. The bounding box is \<^verbatim>\<open>None\<close> or a pair,
  and a pair is truthy; \<open>height\<close> is a \<^verbatim>\<open>np.int64\<close>, so \<^verbatim>\<open>height * hind_ratio\<close> converts it
  to a float and multiplies.
\<close>

definition get_foot_zone_indices :: "(int \<times> int) option \<Rightarrow> nat \<Rightarrow> zones option" where
  "get_foot_zone_indices foot_bbox total_rows =
     (case foot_bbox of
        None \<Rightarrow> None
      | Some (min_r, max_r) \<Rightarrow>
          let height = max_r - min_r + 1 in
          if height < 3 then None
          else
            let hind_end = min_r + trunc_int (fmul (float_of_int height) hindfoot_ratio);
                mid_end = hind_end + trunc_int (fmul (float_of_int height) midfoot_ratio)
            in Some \<lparr>hind = \<lparr>start = min_r, stop = hind_end\<rparr>,
                     mid = \<lparr>start = hind_end, stop = mid_end\<rparr>,
                     fore = \<lparr>start = mid_end, stop = max_r + 1\<rparr>\<rparr>)"

text \<open>The numbers of rows that the function gives to the hind zone and to the mid zone.\<close>

definition hind_rows :: "int \<Rightarrow> int" where
  "hind_rows h = trunc_int (fmul (float_of_int h) hindfoot_ratio)"

definition mid_rows :: "int \<Rightarrow> int" where
  "mid_rows h = trunc_int (fmul (float_of_int h) midfoot_ratio)"

section \<open>Arch classification\<close>

text \<open>
  The labels are the strings \<^verbatim>\<open>"... (High Arch)"\<close>, \<^verbatim>\<open>"... (Normal)"\<close>,
  \<^verbatim>\<open>"... (Flat Foot)"\<close> and the no-data label of \<^verbatim>\<open>_analyze_foot_type\<close>, each with a
  Korean prefix; a datatype names them.
\<close>

datatype arch_label = HighArch | NormalArch | FlatFoot | NoData

definition classify_arch :: "rat \<Rightarrow> arch_label" where
  "classify_arch ratio =
     (if ratio \<le> high_arch then HighArch
      else if ratio \<le> normal then NormalArch
      else FlatFoot)"

text \<open>
  \<^verbatim>\<open>_calculate_arch_score\<close>. The index is a \<^verbatim>\<open>np.float64\<close>, whose \<^verbatim>\<open>round(x, 1)\<close> scales by
  ten, rounds to an integer (ties to even) and divides by ten, in floating point.
\<close>

definition np_round1 :: "rat \<Rightarrow> rat" where
  "np_round1 x = fdiv (of_int (rnd_even (fmul x 10))) 10"

definition calculate_arch_score :: "rat \<Rightarrow> rat" where
  "calculate_arch_score arch_index =
     (let ideal = fdiv (fadd high_arch normal) 2;
          width = fdiv (fsub normal high_arch) 2
      in if width \<noteq> 0
         then (let s = fsub 100 (fmul (fdiv \<bar>fsub arch_index ideal\<bar> width) 50)
               in if 0 < s then np_round1 s else 0)
         else (if arch_index = ideal then 100 else 0))"

section \<open>Arrays\<close>

type_synonym grid = "int list list"

type_synonym mask = "bool list list"

type_synonym cell = "nat \<times> nat"

definition nrows :: "'a list list \<Rightarrow> nat" where
  "nrows a = length a"

definition ncols :: "'a list list \<Rightarrow> nat" where
  "ncols a = (case a of [] \<Rightarrow> 0 | row # _ \<Rightarrow> length row)"

text \<open>A two-dimensional numpy array has rows of one length.\<close>

definition rect :: "'a list list \<Rightarrow> bool" where
  "rect a = list_all (\<lambda>row. length row = ncols a) a"

definition np_size :: "'a list list \<Rightarrow> nat" where
  "np_size a = nrows a * ncols a"

text \<open>
  The cells of an \<^verbatim>\<open>int64\<close> array, and the value that 64-bit two's complement
  arithmetic gives to an integer.
\<close>

definition int64_array :: "grid \<Rightarrow> bool" where
  "int64_array a = list_all (list_all (\<lambda>v. - (2 ^ 63) \<le> v \<and> v < 2 ^ 63)) a"

definition wrap64 :: "int \<Rightarrow> int" where
  "wrap64 x = (x + 2 ^ 63) mod 2 ^ 64 - 2 ^ 63"

text \<open>
  \<^verbatim>\<open>np.sum(a)\<close> of an \<^verbatim>\<open>int64\<close> array is an \<^verbatim>\<open>np.int64\<close>: the sum of the cells
  (\<open>exact_sum\<close>), wrapped around.
\<close>

definition exact_sum :: "grid \<Rightarrow> int" where
  "exact_sum a = sum_list (map sum_list a)"

definition np_sum :: "grid \<Rightarrow> int" where
  "np_sum a = wrap64 (exact_sum a)"

definition np_max :: "grid \<Rightarrow> int" where
  "np_max a = Max (set (concat a))"

text \<open>The array of a given shape whose cell \<open>(r, c)\<close> is \<open>f r c\<close>.\<close>

definition tabulate :: "nat \<Rightarrow> nat \<Rightarrow> (nat \<Rightarrow> nat \<Rightarrow> 'a) \<Rightarrow> 'a list list" where
  "tabulate R C f = map (\<lambda>r. map (f r) [0..<C]) [0..<R]"

text \<open>\<^verbatim>\<open>a > 0\<close>, \<^verbatim>\<open>np.where(a > t, a, 0)\<close>, \<^verbatim>\<open>m.astype(int) * a\<close> and \<^verbatim>\<open>a * m\<close>, elementwise.\<close>

definition positive :: "grid \<Rightarrow> mask" where
  "positive a = map (map (\<lambda>v. 0 < v)) a"

definition np_where_gt :: "grid \<Rightarrow> int \<Rightarrow> grid" where
  "np_where_gt a t = map (map (\<lambda>v. if t < v then v else 0)) a"

definition mask_times :: "mask \<Rightarrow> grid \<Rightarrow> grid" where
  "mask_times m a = map2 (map2 (\<lambda>b v. (if b then 1 else 0) * v)) m a"

definition times_mask :: "grid \<Rightarrow> mask \<Rightarrow> grid" where
  "times_mask a m = map2 (map2 (\<lambda>v b. v * (if b then 1 else 0))) a m"

text \<open>
  A basic slice \<^verbatim>\<open>a[start:stop, :]\<close> of rows: a negative bound counts from the end, and
  bounds are clipped to the array.
\<close>

definition slice_index :: "nat \<Rightarrow> int \<Rightarrow> nat" where
  "slice_index n i = (if i < 0 then nat (max 0 (int n + i)) else min n (nat i))"

definition np_rows :: "'a list list \<Rightarrow> int \<Rightarrow> int \<Rightarrow> 'a list list" where
  "np_rows a i j = take (slice_index (length a) j - slice_index (length a) i)
     (drop (slice_index (length a) i) a)"

section \<open>Noise filter\<close>

text \<open>
  \<^verbatim>\<open>binary_opening(m, structure=np.ones((3, 3)))\<close>: an erosion followed by a dilation, both
  with the full 3 by 3 structuring element and with the cells outside the array read as
  unset (the default \<^verbatim>\<open>border_value=0\<close>).
\<close>

definition mask_at :: "mask \<Rightarrow> int \<Rightarrow> int \<Rightarrow> bool" where
  "mask_at m r c = (0 \<le> r \<and> r < int (nrows m) \<and> 0 \<le> c \<and> c < int (ncols m) \<and>
     m ! nat r ! nat c)"

definition offsets :: "int list" where
  "offsets = [- 1, 0, 1]"

definition binary_erosion :: "mask \<Rightarrow> mask" where
  "binary_erosion m = tabulate (nrows m) (ncols m)
     (\<lambda>r c. list_all (\<lambda>dr. list_all (\<lambda>dc. mask_at m (int r + dr) (int c + dc)) offsets) offsets)"

definition binary_dilation :: "mask \<Rightarrow> mask" where
  "binary_dilation m = tabulate (nrows m) (ncols m)
     (\<lambda>r c. list_ex (\<lambda>dr. list_ex (\<lambda>dc. mask_at m (int r + dr) (int c + dc)) offsets) offsets)"

definition binary_opening :: "mask \<Rightarrow> mask" where
  "binary_opening m = binary_dilation (binary_erosion m)"

text \<open>
  \<^verbatim>\<open>_filter_noise\<close> on a non-empty pressure array: the array that becomes
  \<^verbatim>\<open>cleaned_array\<close>. (On an empty array the method returns at once.)
\<close>

definition noise_filtered :: "grid \<Rightarrow> grid" where
  "noise_filtered p =
     (if np_max p = 0 then p
      else
        let cleaned = np_where_gt p noise_threshold
        in mask_times (binary_opening (positive cleaned)) cleaned)"

section \<open>Connected components\<close>

text \<open>
  \<^verbatim>\<open>scipy.ndimage.label(m)\<close> with its default structuring element: the components of the
  set cells under 4-connectivity, numbered from 1 in the order in which a row-by-row scan
  first meets them. The model returns the components as lists of cells, the component
  with label \<open>i + 1\<close> at position \<open>i\<close>; \<^verbatim>\<open>num_features\<close> is the length of the list and
  \<^verbatim>\<open>labeled_array == i + 1\<close> is membership in the \<open>i\<close>-th list.
\<close>

definition foreground :: "mask \<Rightarrow> cell list" where
  "foreground m = filter (\<lambda>(r, c). m ! r ! c) (List.product [0..<nrows m] [0..<ncols m])"

fun adjacent :: "cell \<Rightarrow> cell \<Rightarrow> bool" where
  "adjacent (r, c) (r', c') =
     ((r = r' \<and> (c = Suc c' \<or> c' = Suc c)) \<or> (c = c' \<and> (r = Suc r' \<or> r' = Suc r)))"

definition touches :: "cell list \<Rightarrow> cell \<Rightarrow> bool" where
  "touches blob q = list_ex (\<lambda>p. adjacent p q) blob"

text \<open>
  \<open>flood blob rest\<close> grows \<open>blob\<close> by the cells of \<open>rest\<close> that touch it until none
  does, and returns the component with the cells left over.
\<close>

function flood :: "cell list \<Rightarrow> cell list \<Rightarrow> cell list \<times> cell list" where
  "flood blob rest =
     (if list_ex (touches blob) rest
      then flood (blob @ filter (touches blob) rest) (filter (\<lambda>q. \<not> touches blob q) rest)
      else (blob, rest))"
  by pat_completeness auto
termination
proof (relation "measure (\<lambda>(blob, rest). length rest)")
  show "wf (measure (\<lambda>(blob, rest). length rest))" by simp
next
  fix blob rest :: "cell list"
  assume "list_ex (touches blob) rest"
  then obtain q where "q \<in> set rest" "touches blob q" by (auto simp add: list_ex_iff)
  then have "length (filter (\<lambda>q. \<not> touches blob q) rest) < length rest"
    by (intro length_filter_less [of q]) simp_all
  then show "((blob @ filter (touches blob) rest, filter (\<lambda>q. \<not> touches blob q) rest), (blob, rest))
      \<in> measure (\<lambda>(blob, rest). length rest)"
    by simp
qed

lemma flood_step:
  "list_ex (touches blob) rest \<Longrightarrow>
   flood blob rest = flood (blob @ filter (touches blob) rest) (filter (\<lambda>q. \<not> touches blob q) rest)"
  by (subst flood.simps) (simp only: if_True)

lemma flood_stop: "\<not> list_ex (touches blob) rest \<Longrightarrow> flood blob rest = (blob, rest)"
  by (subst flood.simps) (simp only: if_False)

lemma flood_rest_length: "length (snd (flood blob rest)) \<le> length rest"
proof (induction blob rest rule: flood.induct)
  case (1 blob rest)
  show ?case
  proof (cases "list_ex (touches blob) rest")
    case True
    have "length (filter (\<lambda>q. \<not> touches blob q) rest) \<le> length rest" by simp
    with "1.IH" [OF True] have "length (snd (flood (blob @ filter (touches blob) rest)
        (filter (\<lambda>q. \<not> touches blob q) rest))) \<le> length rest"
      by (rule order_trans)
    then show ?thesis by (simp only: flood_step [OF True])
  next
    case False
    then show ?thesis by (simp add: flood_stop)
  qed
qed

function components :: "cell list \<Rightarrow> cell list list" where
  "components [] = []"
| "components (p # ps) = fst (flood [p] ps) # components (snd (flood [p] ps))"
  by pat_completeness auto
termination
proof (relation "measure length")
  show "wf (measure length)" by simp
next
  fix p :: cell and ps :: "cell list"
  have "length (snd (flood [p] ps)) < length (p # ps)"
    using flood_rest_length [of "[p]" ps] by simp
  then show "(snd (flood [p] ps), p # ps) \<in> measure length" by simp
qed

definition label :: "mask \<Rightarrow> cell list list" where
  "label m = components (foreground m)"


section \<open>Foot separation\<close>

text \<open>
  A \<^verbatim>\<open>np.float64\<close> that may be infinite or not a number, and the comparison \<^verbatim>\<open><\<close> of
  two such floats.
\<close>

datatype np_float = Finite rat | PosInf | NegInf | NaN

fun float_less :: "np_float \<Rightarrow> np_float \<Rightarrow> bool" where
  "float_less (Finite x) (Finite y) = (x < y)"
| "float_less (Finite x) PosInf = True"
| "float_less NegInf (Finite y) = True"
| "float_less NegInf PosInf = True"
| "float_less _ _ = False"

text \<open>The boolean array of a given shape that is set on the listed cells.\<close>

definition mask_of :: "nat \<Rightarrow> nat \<Rightarrow> cell list \<Rightarrow> mask" where
  "mask_of R C cells = tabulate R C (\<lambda>r c. (r, c) \<in> set cells)"

text \<open>
  Lines 204 to 212 of \<^verbatim>\<open>_separate_feet\<close>: whole components, by their centre of mass.
  The parameter \<open>com\<close> stands for \<^verbatim>\<open>center_of_mass(array, labeled_array, i + 1)[1]\<close>, the
  column coordinate that scipy returns for the component with label \<open>i + 1\<close>.
\<close>

definition centroid_split ::
    "(grid \<Rightarrow> cell list \<Rightarrow> np_float) \<Rightarrow> grid \<Rightarrow> cell list list \<Rightarrow> grid \<times> grid" where
  "centroid_split com a blobs =
     (let mid_col = ncols a div 2;
          left_mask = mask_of (nrows a) (ncols a)
            (concat (filter (\<lambda>blob. float_less (com a blob) (Finite (of_nat mid_col))) blobs));
          right_mask = mask_of (nrows a) (ncols a)
            (concat (filter (\<lambda>blob. \<not> float_less (com a blob) (Finite (of_nat mid_col))) blobs))
      in (times_mask a left_mask, times_mask a right_mask))"

text \<open>
  \<^verbatim>\<open>_separate_feet\<close>. \<^verbatim>\<open>find_objects(labeled_array)[0][1]\<close> is the slice of the columns of
  component 1, from its least column to one past its greatest; \<^verbatim>\<open>cols / 3\<close> is a float.
\<close>

definition separate_feet :: "(grid \<Rightarrow> cell list \<Rightarrow> np_float) \<Rightarrow> grid \<Rightarrow> grid \<times> grid" where
  "separate_feet com a =
     (if np_sum a = 0 then ([], [])
      else
        let cols = ncols a;
            mid_col = cols div 2;
            blobs = label (positive a)
        in
          if length blobs = 1 then
            (let obj = hd blobs;
                 obj_min_col = Min (snd ` set obj);
                 obj_max_col = Max (snd ` set obj) + 1
             in
               if obj_min_col < mid_col \<and> mid_col < obj_max_col \<and>
                  fdiv (of_nat cols) 3 < of_nat (obj_max_col - obj_min_col)
               then
                 (let left_mask = mask_of (nrows a) cols (filter (\<lambda>(r, c). c < mid_col) obj);
                      right_mask = mask_of (nrows a) cols (filter (\<lambda>(r, c). mid_col \<le> c) obj);
                      left_foot = times_mask a left_mask;
                      right_foot = times_mask a right_mask
                  in if 0 < np_sum left_foot \<and> 0 < np_sum right_foot
                     then (left_foot, right_foot)
                     else centroid_split com a blobs)
               else centroid_split com a blobs)
          else centroid_split com a blobs)"

text \<open>
  Two notions for stating properties: a pressure grid has no negative reading, and
  \<open>keep_cells a cells\<close> is the array \<open>a\<close> with every cell outside \<open>cells\<close> zeroed.
\<close>

definition nonneg :: "grid \<Rightarrow> bool" where
  "nonneg a = list_all (list_all (\<lambda>v. 0 \<le> v)) a"

definition keep_cells :: "grid \<Rightarrow> cell list \<Rightarrow> grid" where
  "keep_cells a cells =
     tabulate (nrows a) (ncols a) (\<lambda>r c. if (r, c) \<in> set cells then a ! r ! c else 0)"

section \<open>Properties of the binary64 rounding\<close>

lemma tiny_scale_pos: "0 < tiny_scale"
  by (simp add: tiny_scale_def)

lemma tiny_scale_split: "tiny_scale = 2 ^ 1022 * 2 ^ 52"
  by (simp add: tiny_scale_def)

lemma rnd_even_err: "\<bar>of_int (rnd_even v) - v\<bar> \<le> 1/2"
proof -
  have a: "of_int \<lfloor>v\<rfloor> \<le> v" and b: "v < of_int \<lfloor>v\<rfloor> + 1" by linarith+
  show ?thesis unfolding rnd_even_def Let_def using a b by (auto simp: abs_le_iff)
qed

lemma rnd_even_of_int [simp]: "rnd_even (of_int n) = n"
  by (simp add: rnd_even_def)

lemma rnd_even_mono: "v \<le> w \<Longrightarrow> rnd_even v \<le> rnd_even w"
proof -
  assume vw: "v \<le> w"
  have fm: "\<lfloor>v\<rfloor> \<le> \<lfloor>w\<rfloor>" using vw by (rule floor_mono)
  show ?thesis
  proof (cases "\<lfloor>v\<rfloor> = \<lfloor>w\<rfloor>")
    case True
    then show ?thesis using vw unfolding rnd_even_def Let_def by auto
  next
    case False
    then have "\<lfloor>v\<rfloor> + 1 \<le> \<lfloor>w\<rfloor>" using fm by simp
    moreover have "rnd_even v \<le> \<lfloor>v\<rfloor> + 1" unfolding rnd_even_def Let_def by auto
    moreover have "\<lfloor>w\<rfloor> \<le> rnd_even w" unfolding rnd_even_def Let_def by auto
    ultimately show ?thesis by linarith
  qed
qed

lemma rnd_even_le_int: "v \<le> of_int n \<Longrightarrow> rnd_even v \<le> n"
  using rnd_even_mono [of v "of_int n"] by simp

lemma rnd_even_ge_int: "of_int n \<le> v \<Longrightarrow> n \<le> rnd_even v"
  using rnd_even_mono [of "of_int n" v] by simp

lemma bitlen_mono: "x \<le> y \<Longrightarrow> bitlen x \<le> bitlen y"
  by (simp add: bitlen_def floorlog_mono)

lemma ulp_shift_mono: "x \<le> y \<Longrightarrow> ulp_shift x \<le> ulp_shift y"
  unfolding ulp_shift_def using tiny_scale_pos
  by (intro nat_mono diff_right_mono bitlen_mono floor_mono mult_right_mono) auto

lemma ulp_shift_pos_lower:
  assumes "0 < ulp_shift x" shows "2 ^ (ulp_shift x + 52) \<le> x * tiny_scale"
proof -
  let ?N = "\<lfloor>x * tiny_scale\<rfloor>"
  from assms have b: "54 \<le> bitlen ?N" by (simp add: ulp_shift_def)
  then have pos: "0 < ?N" using bitlen_eq_zero_iff [of ?N] by linarith
  have e: "nat (bitlen ?N - 1) = ulp_shift x + 52" using b by (simp add: ulp_shift_def)
  from bitlen_bounds [OF pos] e have "(2::int) ^ (ulp_shift x + 52) \<le> ?N" by simp
  then have "(of_int ((2::int) ^ (ulp_shift x + 52)) :: rat) \<le> of_int ?N"
    by (simp only: of_int_le_iff)
  also have "\<dots> \<le> x * tiny_scale" by (rule of_int_floor_le)
  finally show ?thesis by simp
qed

lemma ulp_shift_upper: "x * tiny_scale < 2 ^ (ulp_shift x + 53)"
proof -
  let ?N = "\<lfloor>x * tiny_scale\<rfloor>"
  have "bitlen ?N \<le> int (ulp_shift x + 53)" by (simp add: ulp_shift_def)
  then have "?N < 2 ^ nat (int (ulp_shift x + 53))"
    using bitlen_le_iff_power [of ?N "int (ulp_shift x + 53)"] by blast
  then have "?N < 2 ^ (ulp_shift x + 53)" by (simp only: nat_int)
  then have "?N + 1 \<le> 2 ^ (ulp_shift x + 53)" by simp
  then have "(of_int (?N + 1) :: rat) \<le> of_int (2 ^ (ulp_shift x + 53))"
    by (simp only: of_int_le_iff)
  moreover have "x * tiny_scale < of_int (?N + 1)" by linarith
  ultimately show ?thesis by simp
qed

lemma double_pos_nonneg: "0 \<le> x \<Longrightarrow> 0 \<le> double_pos x"
  unfolding double_pos_def Let_def using tiny_scale_pos
  by (auto intro!: mult_nonneg_nonneg divide_nonneg_nonneg rnd_even_ge_int [of 0, simplified])

lemma double_pos_err:
  "\<bar>double_pos x - x\<bar> \<le> 2 ^ ulp_shift x / (2 * tiny_scale)"
proof -
  let ?s = "ulp_shift x"
  let ?v = "x * tiny_scale / 2 ^ ?s"
  have "double_pos x - x = (of_int (rnd_even ?v) - ?v) * (2 ^ ?s / tiny_scale)"
    using tiny_scale_pos by (simp add: double_pos_def Let_def field_simps)
  then have "\<bar>double_pos x - x\<bar> = \<bar>of_int (rnd_even ?v) - ?v\<bar> * (2 ^ ?s / tiny_scale)"
    using tiny_scale_pos by (simp add: abs_mult)
  also have "\<dots> \<le> (1/2) * (2 ^ ?s / tiny_scale)"
    using tiny_scale_pos by (intro mult_right_mono rnd_even_err) auto
  finally show ?thesis by simp
qed

lemma double_pos_rel_err:
  assumes "1 / 2 ^ 1022 \<le> x"
  shows "\<bar>double_pos x - x\<bar> \<le> x / 2 ^ 53"
proof -
  have "2 ^ ulp_shift x \<le> x * 2 ^ 1022"
  proof (cases "ulp_shift x = 0")
    case True
    have "(1::rat) \<le> x * 2 ^ 1022" using assms by (simp add: field_simps)
    then show ?thesis using True by simp
  next
    case False
    then have "2 ^ (ulp_shift x + 52) \<le> x * tiny_scale" using ulp_shift_pos_lower by simp
    then have "2 ^ ulp_shift x * (2 ^ 52 :: rat) \<le> (x * 2 ^ 1022) * 2 ^ 52"
      by (simp only: power_add tiny_scale_split mult.assoc)
    then show ?thesis by (simp only: mult_le_cancel_right) simp
  qed
  then have "2 ^ ulp_shift x / (2 * tiny_scale) \<le> x * 2 ^ 1022 / (2 * tiny_scale)"
    using tiny_scale_pos by (intro divide_right_mono) simp_all
  also have "\<dots> = x / 2 ^ 53" by (simp add: tiny_scale_def)
  finally show ?thesis using double_pos_err [of x] by linarith
qed

lemma double_pos_mono:
  assumes "x \<le> y"
  shows "double_pos x \<le> double_pos y"
proof -
  let ?sx = "ulp_shift x" and ?sy = "ulp_shift y"
  have le: "?sx \<le> ?sy" using assms by (rule ulp_shift_mono)
  have xy: "x * tiny_scale \<le> y * tiny_scale"
    using assms tiny_scale_pos by (simp add: mult_right_mono)
  show ?thesis
  proof (cases "?sx = ?sy")
    case True
    have "x * tiny_scale / 2 ^ ?sy \<le> y * tiny_scale / 2 ^ ?sy"
      using xy by (simp add: divide_right_mono)
    then have "rnd_even (x * tiny_scale / 2 ^ ?sy) \<le> rnd_even (y * tiny_scale / 2 ^ ?sy)"
      by (rule rnd_even_mono)
    then have "(of_int (rnd_even (x * tiny_scale / 2 ^ ?sy)) :: rat)
        \<le> of_int (rnd_even (y * tiny_scale / 2 ^ ?sy))"
      by (simp only: of_int_le_iff)
    then show ?thesis
      using tiny_scale_pos True
      by (simp add: double_pos_def Let_def divide_right_mono mult_right_mono)
  next
    case False
    then have lt: "?sx < ?sy" using le by simp
    then obtain k where "?sy = Suc (?sx + k)" using less_iff_Suc_add by blast
    then have d: "?sy + 52 = ?sx + 53 + k" by simp
    have "x * tiny_scale < 2 ^ (?sx + 53)" by (rule ulp_shift_upper)
    also have "(2::rat) ^ (?sx + 53) \<le> 2 ^ (?sy + 52)"
      using lt by (intro power_increasing) auto
    finally have xB: "x * tiny_scale \<le> 2 ^ (?sy + 52)" by simp
    have "(2::rat) ^ (?sy + 52) = 2 ^ ?sx * of_int (2 ^ (53 + k))"
      by (simp add: d power_add)
    then have "x * tiny_scale / 2 ^ ?sx \<le> of_int (2 ^ (53 + k))"
      using xB by (simp add: field_simps)
    then have "rnd_even (x * tiny_scale / 2 ^ ?sx) \<le> 2 ^ (53 + k)"
      by (rule rnd_even_le_int)
    then have "(of_int (rnd_even (x * tiny_scale / 2 ^ ?sx)) :: rat) \<le> of_int (2 ^ (53 + k))"
      by (simp only: of_int_le_iff)
    then have "of_int (rnd_even (x * tiny_scale / 2 ^ ?sx)) * 2 ^ ?sx
        \<le> (of_int (2 ^ (53 + k)) :: rat) * 2 ^ ?sx"
      by (rule mult_right_mono) simp
    also have "\<dots> = 2 ^ (?sy + 52)" by (simp add: d power_add)
    finally have X: "double_pos x \<le> 2 ^ (?sy + 52) / tiny_scale"
      using tiny_scale_pos by (simp add: double_pos_def Let_def divide_right_mono)
    have "0 < ?sy" using lt by simp
    then have "2 ^ (?sy + 52) \<le> y * tiny_scale" by (rule ulp_shift_pos_lower)
    then have "of_int (2 ^ 52) \<le> y * tiny_scale / 2 ^ ?sy"
      by (simp add: field_simps power_add)
    then have "2 ^ 52 \<le> rnd_even (y * tiny_scale / 2 ^ ?sy)"
      by (rule rnd_even_ge_int)
    then have "(of_int (2 ^ 52) :: rat) \<le> of_int (rnd_even (y * tiny_scale / 2 ^ ?sy))"
      by (simp only: of_int_le_iff)
    then have "(of_int (2 ^ 52) :: rat) * 2 ^ ?sy
        \<le> of_int (rnd_even (y * tiny_scale / 2 ^ ?sy)) * 2 ^ ?sy"
      by (rule mult_right_mono) simp
    then have "2 ^ (?sy + 52) \<le> of_int (rnd_even (y * tiny_scale / 2 ^ ?sy)) * (2::rat) ^ ?sy"
      by (simp add: power_add mult.commute)
    then have Y: "2 ^ (?sy + 52) / tiny_scale \<le> double_pos y"
      using tiny_scale_pos by (simp add: double_pos_def Let_def divide_right_mono)
    from X Y show ?thesis by linarith
  qed
qed

lemma ulp_shift_eqI:
  assumes "2 ^ (s + 52) \<le> x * tiny_scale" "x * tiny_scale < 2 ^ (s + 53)"
  shows "ulp_shift x = s"
proof -
  let ?N = "\<lfloor>x * tiny_scale\<rfloor>"
  have "(of_int (2 ^ (s + 52)) :: rat) \<le> x * tiny_scale" using assms(1) by simp
  then have lo: "2 ^ (s + 52) \<le> ?N" by (simp only: le_floor_iff)
  have "x * tiny_scale < of_int (2 ^ (s + 53))" using assms(2) by simp
  then have hi: "?N < 2 ^ (s + 53)" by (simp only: floor_less_iff)
  have "bitlen ?N \<le> int (s + 53)"
    using hi bitlen_le_iff_power [of ?N "int (s + 53)"] by (simp only: nat_int) simp
  moreover have "int (s + 53) \<le> bitlen ?N"
    using lo bitlen_ge_iff_power [of "int (s + 53)" ?N]
    by (simp add: nat_add_distrib add.commute)
  ultimately have "bitlen ?N = int s + 53" by simp
  then show ?thesis by (simp add: ulp_shift_def)
qed

lemma double_pos_scaled_up:
  assumes "2 ^ 52 \<le> x * 2 ^ p" "x * 2 ^ p < 2 ^ 53" "p \<le> 1074"
  shows "double_pos x = of_int (rnd_even (x * 2 ^ p)) / 2 ^ p"
proof -
  define s where "s = 1074 - p"
  have K: "tiny_scale = 2 ^ p * 2 ^ s"
    using assms(3) by (simp add: tiny_scale_def s_def flip: power_add)
  have "ulp_shift x = s"
  proof (rule ulp_shift_eqI)
    have "2 ^ 52 * (2::rat) ^ s \<le> x * 2 ^ p * 2 ^ s"
      using assms(1) by (rule mult_right_mono) simp
    then show "2 ^ (s + 52) \<le> x * tiny_scale" by (simp add: K power_add mult_ac)
    have "x * 2 ^ p * 2 ^ s < 2 ^ 53 * (2::rat) ^ s"
      using assms(2) by (rule mult_strict_right_mono) simp
    then show "x * tiny_scale < 2 ^ (s + 53)" by (simp add: K power_add mult_ac)
  qed
  then show ?thesis by (simp add: double_pos_def K)
qed

lemma double_pos_scaled_down:
  assumes "2 ^ 52 \<le> x / 2 ^ q" "x / 2 ^ q < 2 ^ 53"
  shows "double_pos x = of_int (rnd_even (x / 2 ^ q)) * 2 ^ q"
proof -
  have "ulp_shift x = 1074 + q"
  proof (rule ulp_shift_eqI)
    have "2 ^ 52 * ((2::rat) ^ q * tiny_scale) \<le> x / 2 ^ q * (2 ^ q * tiny_scale)"
      using assms(1) tiny_scale_pos by (intro mult_right_mono) simp_all
    then show "2 ^ (1074 + q + 52) \<le> x * tiny_scale"
      by (simp add: power_add mult_ac tiny_scale_def)
    have "x / 2 ^ q * (2 ^ q * tiny_scale) < 2 ^ 53 * ((2::rat) ^ q * tiny_scale)"
      using assms(2) tiny_scale_pos by (intro mult_strict_right_mono) simp_all
    then show "x * tiny_scale < 2 ^ (1074 + q + 53)"
      by (simp add: power_add mult_ac tiny_scale_def)
  qed
  then show ?thesis by (simp add: double_pos_def power_add tiny_scale_def)
qed

lemma double_pos_0 [simp]: "double_pos 0 = 0"
  by (simp add: double_pos_def rnd_even_def)

lemma rnd_even_frac:
  assumes "0 < b"
  shows "rnd_even (of_int a / of_int b) =
    (if 2 * (a mod b) < b then a div b else if b < 2 * (a mod b) then a div b + 1
     else if even (a div b) then a div b else a div b + 1)"
proof -
  have f: "\<lfloor>(of_int a / of_int b :: rat)\<rfloor> = a div b" by (simp add: floor_divide_of_int_eq)
  have "(of_int a :: rat) = of_int (a div b) * of_int b + of_int (a mod b)"
    by (metis of_int_add of_int_mult div_mult_mod_eq)
  then have d: "(of_int a / of_int b :: rat) - of_int (a div b) = of_int (a mod b) / of_int b"
    using assms by (simp add: field_simps)
  have c1: "(of_int (a mod b) / of_int b < (1/2::rat)) = (2 * (a mod b) < b)"
    using assms by (simp add: field_simps) (metis of_int_less_iff of_int_mult of_int_numeral)
  have c2: "((1/2::rat) < of_int (a mod b) / of_int b) = (b < 2 * (a mod b))"
    using assms by (simp add: field_simps) (metis of_int_less_iff of_int_mult of_int_numeral)
  show ?thesis unfolding rnd_even_def Let_def f d c1 c2 by simp
qed

lemma rnd_even_numeral_frac:
  "rnd_even (numeral a / numeral b) =
    (if 2 * (numeral a mod numeral b) < (numeral b :: int) then numeral a div numeral b
     else if numeral b < 2 * (numeral a mod numeral b :: int) then numeral a div numeral b + 1
     else if even (numeral a div numeral b :: int) then numeral a div numeral b
     else numeral a div numeral b + 1)"
  using rnd_even_frac [of "numeral b" "numeral a"] by simp

lemma rnd_even_numeral [simp]: "rnd_even (numeral a) = numeral a"
  using rnd_even_of_int [of "numeral a"] by simp

lemma double_pos_one: "double_pos 1 = 1"
  by (subst double_pos_scaled_up [where p = 52]) (simp_all add: rnd_even_numeral_frac)

lemma double_pos_hundred: "double_pos 100 = 100"
  by (subst double_pos_scaled_up [where p = 46]) (simp_all add: rnd_even_numeral_frac)

lemma double_nonneg_eq: "0 \<le> x \<Longrightarrow> double x = double_pos x"
  by (simp add: double_def)

lemma double_nonneg: "0 \<le> x \<Longrightarrow> 0 \<le> double x"
  by (simp add: double_nonneg_eq double_pos_nonneg)

lemma double_mono: "0 \<le> x \<Longrightarrow> x \<le> y \<Longrightarrow> double x \<le> double y"
  by (simp add: double_nonneg_eq double_pos_mono)

lemma double_rel_err: "1 / 2 ^ 1022 \<le> x \<Longrightarrow> \<bar>double x - x\<bar> \<le> x / 2 ^ 53"
proof -
  assume a: "1 / 2 ^ 1022 \<le> x"
  have "(0::rat) \<le> 1 / 2 ^ 1022" by simp
  from this a have "0 \<le> x" by (rule order_trans)
  then show ?thesis using double_pos_rel_err [OF a] by (simp add: double_nonneg_eq)
qed

lemma double_ge_one: "1 \<le> x \<Longrightarrow> 1 \<le> double x"
  using double_mono [of 1 x] by (simp add: double_nonneg_eq double_pos_one)

lemma double_le_one: "0 \<le> x \<Longrightarrow> x \<le> 1 \<Longrightarrow> double x \<le> 1"
  using double_mono [of x 1] by (simp add: double_nonneg_eq double_pos_one)

lemma double_le_hundred: "0 \<le> x \<Longrightarrow> x \<le> 100 \<Longrightarrow> double x \<le> 100"
  using double_mono [of x 100] by (simp add: double_nonneg_eq double_pos_hundred)

lemma double_upper: "1 \<le> x \<Longrightarrow> double x \<le> x * (1 + 1 / 2 ^ 53)"
proof -
  assume a: "1 \<le> x"
  have "(1::rat) / 2 ^ 1022 \<le> 1" by simp
  with a have "1 / 2 ^ 1022 \<le> x" by linarith
  from double_rel_err [OF this] have "double x - x \<le> x / 2 ^ 53" by linarith
  then show ?thesis by (simp add: algebra_simps)
qed

lemma hindfoot_ratio_value: "hindfoot_ratio = 5404319552844595 / 2 ^ 54"
  unfolding hindfoot_ratio_def double_def
  by (simp, subst double_pos_scaled_up [where p = 54]) (simp_all add: rnd_even_numeral_frac)

lemma midfoot_ratio_value: "midfoot_ratio = 3602879701896397 / 2 ^ 53"
  unfolding midfoot_ratio_def double_def
  by (simp, subst double_pos_scaled_up [where p = 54]) (simp_all add: rnd_even_numeral_frac)

lemma high_arch_value: "high_arch = 7566047373982433 / 2 ^ 55"
  unfolding high_arch_def double_def
  by (simp, subst double_pos_scaled_up [where p = 55]) (simp_all add: rnd_even_numeral_frac)

lemma normal_value: "normal = 4683743612465316 / 2 ^ 54"
  unfolding normal_def double_def
  by (simp, subst double_pos_scaled_up [where p = 54]) (simp_all add: rnd_even_numeral_frac)

section \<open>Zone boundaries\<close>

lemma double_pos_three: "double_pos 3 = 3"
  by (subst double_pos_scaled_up [where p = 51]) (simp_all add: rnd_even_numeral_frac)

lemma double_pos_four: "double_pos 4 = 4"
  by (subst double_pos_scaled_up [where p = 50]) (simp_all add: rnd_even_numeral_frac)

lemma double_upper_normal: "1 / 2 ^ 1022 \<le> x \<Longrightarrow> double x \<le> x * (1 + 1 / 2 ^ 53)"
proof -
  assume "1 / 2 ^ 1022 \<le> x"
  from double_rel_err [OF this] have "double x - x \<le> x / 2 ^ 53" by linarith
  then show ?thesis by (simp add: algebra_simps)
qed

lemma float_of_int_ge3: "3 \<le> h \<Longrightarrow> 3 \<le> float_of_int h"
  using double_mono [of 3 "of_int h"] by (simp add: float_of_int_def double_nonneg_eq double_pos_three)

lemma float_of_int_ge4: "4 \<le> h \<Longrightarrow> 4 \<le> float_of_int h"
  using double_mono [of 4 "of_int h"] by (simp add: float_of_int_def double_nonneg_eq double_pos_four)

lemma float_of_int_upper: "1 \<le> h \<Longrightarrow> float_of_int h \<le> of_int h * (1 + 1 / 2 ^ 53)"
  unfolding float_of_int_def by (rule double_upper_normal) (simp add: order_trans [of _ 1])

lemma trunc_int_nonneg: "0 \<le> x \<Longrightarrow> trunc_int x = \<lfloor>x\<rfloor>"
  by (simp add: trunc_int_def)

lemma zone_rows_bounds:
  assumes "3 \<le> h"
  shows "0 \<le> hind_rows h" and "1 \<le> mid_rows h" and "hind_rows h + mid_rows h < h"
    and "4 \<le> h \<Longrightarrow> 1 \<le> hind_rows h"
proof -
  define H where "H = float_of_int h"
  define u :: rat where "u = 1 / 2 ^ 53"
  define c3 :: rat where "c3 = 5404319552844595 / 2 ^ 54"
  define c4 :: rat where "c4 = 3602879701896397 / 2 ^ 53"
  have H3: "3 \<le> H" unfolding H_def using assms by (rule float_of_int_ge3)
  have Hu: "H \<le> of_int h * (1 + u)" unfolding H_def u_def
    using assms by (intro float_of_int_upper) simp
  have c3pos: "0 < c3" and c4pos: "0 < c4" by (simp_all add: c3_def c4_def)
  define x where "x = H * c3"
  define y where "y = H * c4"
  have x3: "3 * c3 \<le> x" unfolding x_def using H3 c3pos by (simp add: mult_right_mono)
  have y3: "3 * c4 \<le> y" unfolding y_def using H3 c4pos by (simp add: mult_right_mono)
  have xlo: "1 / 2 ^ 1022 \<le> x"
  proof -
    have "(1::rat) / 2 ^ 1022 \<le> 3 * c3" by (simp add: c3_def)
    then show ?thesis using x3 by linarith
  qed
  have y1: "1 \<le> y"
  proof -
    have "1 \<le> 3 * c4" by (simp add: c4_def)
    then show ?thesis using y3 by linarith
  qed
  have ylo: "1 / 2 ^ 1022 \<le> y"
  proof -
    have "(1::rat) / 2 ^ 1022 \<le> 1" by simp
    then show ?thesis using y1 by linarith
  qed
  have x0: "0 \<le> x" using x3 c3pos by linarith
  have A0: "0 \<le> double x" using x0 by (rule double_nonneg)
  have B1: "1 \<le> double y" using y1 by (rule double_ge_one)
  have hr: "hind_rows h = \<lfloor>double x\<rfloor>"
    using A0 by (simp add: hind_rows_def fmul_def hindfoot_ratio_value x_def H_def c3_def trunc_int_nonneg)
  have mr: "mid_rows h = \<lfloor>double y\<rfloor>"
    using B1 by (simp add: mid_rows_def fmul_def midfoot_ratio_value y_def H_def c4_def trunc_int_nonneg)
  show "0 \<le> hind_rows h" using A0 by (simp add: hr)
  show "1 \<le> mid_rows h" using B1 by (simp add: mr le_floor_iff)
  have Au: "double x \<le> x * (1 + u)" unfolding u_def using xlo by (rule double_upper_normal)
  have Bu: "double y \<le> y * (1 + u)" unfolding u_def using ylo by (rule double_upper_normal)
  have "double x + double y \<le> H * ((c3 + c4) * (1 + u))"
    using Au Bu by (simp add: x_def y_def algebra_simps)
  also have "\<dots> \<le> (of_int h * (1 + u)) * ((c3 + c4) * (1 + u))"
    using Hu c3pos c4pos by (intro mult_right_mono) (simp_all add: u_def)
  also have "\<dots> = of_int h * ((1 + u) * ((c3 + c4) * (1 + u)))" by (simp add: mult.assoc)
  also have "\<dots> < of_int h * 1"
  proof (rule mult_strict_left_mono)
    show "(1 + u) * ((c3 + c4) * (1 + u)) < 1" by (simp add: u_def c3_def c4_def)
    show "(0::rat) < of_int h" using assms by simp
  qed
  finally have sum: "double x + double y < of_int h" by simp
  have fx: "of_int \<lfloor>double x\<rfloor> \<le> double x" by (rule of_int_floor_le)
  have fy: "of_int \<lfloor>double y\<rfloor> \<le> double y" by (rule of_int_floor_le)
  have "(of_int (\<lfloor>double x\<rfloor> + \<lfloor>double y\<rfloor>) :: rat) < of_int h"
    unfolding of_int_add using sum fx fy by linarith
  then have "\<lfloor>double x\<rfloor> + \<lfloor>double y\<rfloor> < h" by (simp only: of_int_less_iff)
  then show "hind_rows h + mid_rows h < h" by (simp add: hr mr)
  show "1 \<le> hind_rows h" if "4 \<le> h"
  proof -
    have "4 \<le> H" unfolding H_def using that by (rule float_of_int_ge4)
    then have "4 * c3 \<le> x" unfolding x_def using c3pos by (simp add: mult_right_mono)
    moreover have "1 \<le> 4 * c3" by (simp add: c3_def)
    ultimately have "1 \<le> x" by linarith
    then have "1 \<le> double x" by (rule double_ge_one)
    then show ?thesis by (simp add: hr le_floor_iff)
  qed
qed

lemma get_foot_zone_indices_rows:
  "get_foot_zone_indices (Some (min_r, max_r)) n =
     (if max_r - min_r + 1 < 3 then None
      else Some \<lparr>hind = \<lparr>start = min_r, stop = min_r + hind_rows (max_r - min_r + 1)\<rparr>,
                 mid = \<lparr>start = min_r + hind_rows (max_r - min_r + 1),
                        stop = min_r + hind_rows (max_r - min_r + 1) + mid_rows (max_r - min_r + 1)\<rparr>,
                 fore = \<lparr>start = min_r + hind_rows (max_r - min_r + 1) + mid_rows (max_r - min_r + 1),
                         stop = max_r + 1\<rparr>\<rparr>)"
  by (simp add: get_foot_zone_indices_def Let_def hind_rows_def mid_rows_def)

lemma float_of_int_three: "float_of_int 3 = 3"
  by (simp add: float_of_int_def double_nonneg_eq double_pos_three)

lemma hind_rows_three: "hind_rows 3 = 0"
proof -
  have "double_pos (3 * (5404319552844595 / 2 ^ 54)) = 8106479329266892 / 2 ^ 53"
    by (subst double_pos_scaled_up [where p = 53]) (simp_all add: rnd_even_numeral_frac)
  then show ?thesis
    by (simp add: hind_rows_def float_of_int_three fmul_def hindfoot_ratio_value
        double_nonneg_eq trunc_int_def floor_eq_iff)
qed

lemma mid_rows_three: "mid_rows 3 = 1"
proof -
  have "double_pos (3 * (3602879701896397 / 2 ^ 53)) = 5404319552844596 / 2 ^ 52"
    by (subst double_pos_scaled_up [where p = 52]) (simp_all add: rnd_even_numeral_frac)
  then show ?thesis
    by (simp add: mid_rows_def float_of_int_three fmul_def midfoot_ratio_value
        double_nonneg_eq trunc_int_def floor_eq_iff)
qed

section \<open>Properties of arrays and of the binary opening\<close>

lemma nrows_tabulate [simp]: "nrows (tabulate R C f) = R"
  by (simp add: nrows_def tabulate_def)

lemma ncols_tabulate [simp]: "0 < R \<Longrightarrow> ncols (tabulate R C f) = C"
  by (cases R) (simp_all add: ncols_def tabulate_def upt_conv_Cons del: upt_Suc)

lemma tabulate_nth [simp]: "r < R \<Longrightarrow> c < C \<Longrightarrow> tabulate R C f ! r ! c = f r c"
  by (simp add: tabulate_def)

lemma tabulate_cong: "(\<And>r c. r < R \<Longrightarrow> c < C \<Longrightarrow> f r c = g r c) \<Longrightarrow> tabulate R C f = tabulate R C g"
  by (simp add: tabulate_def)

lemma rect_row_length: "rect a \<Longrightarrow> r < nrows a \<Longrightarrow> length (a ! r) = ncols a"
  by (simp add: rect_def nrows_def list_all_length)

lemma rect_tabulate: 
  assumes "rect a"
  shows "tabulate (nrows a) (ncols a) (\<lambda>r c. f (a ! r ! c)) = map (map f) a"
proof (rule nth_equalityI)
  show "length (tabulate (nrows a) (ncols a) (\<lambda>r c. f (a ! r ! c))) = length (map (map f) a)"
    by (simp add: tabulate_def nrows_def)
  fix r assume "r < length (tabulate (nrows a) (ncols a) (\<lambda>r c. f (a ! r ! c)))"
  then have r: "r < nrows a" by (simp add: tabulate_def)
  then have len: "length (a ! r) = ncols a" using assms by (rule rect_row_length [rotated])
  have "map (\<lambda>c. f (a ! r ! c)) [0..<ncols a] = map f (a ! r)"
    by (rule nth_equalityI) (simp_all add: len)
  then show "tabulate (nrows a) (ncols a) (\<lambda>r c. f (a ! r ! c)) ! r = map (map f) a ! r"
    using r by (simp add: tabulate_def nrows_def)
qed

lemma rect_tabulate_id: "rect a \<Longrightarrow> tabulate (nrows a) (ncols a) (\<lambda>r c. a ! r ! c) = a"
  using rect_tabulate [of a "\<lambda>v. v"] by simp

lemma rect_tabulate_self [simp]: "rect (tabulate R C f)"
proof (cases R)
  case 0
  then show ?thesis by (simp add: rect_def tabulate_def)
next
  case (Suc n)
  then have "ncols (tabulate R C f) = C" by simp
  then show ?thesis by (simp add: rect_def list_all_iff) (simp add: tabulate_def)
qed

lemma rect_tabulate2:
  assumes "rect a" "rect b" "nrows b = nrows a" "ncols b = ncols a"
  shows "map2 (map2 f) a b = tabulate (nrows a) (ncols a) (\<lambda>r c. f (a ! r ! c) (b ! r ! c))"
proof (rule nth_equalityI)
  show "length (map2 (map2 f) a b) = length (tabulate (nrows a) (ncols a) (\<lambda>r c. f (a ! r ! c) (b ! r ! c)))"
    using assms(3) by (simp add: tabulate_def nrows_def)
  fix r assume "r < length (map2 (map2 f) a b)"
  then have r: "r < nrows a" "r < nrows b" using assms(3) by (simp_all add: nrows_def)
  have la: "length (a ! r) = ncols a" using assms(1) r(1) by (rule rect_row_length)
  have lb: "length (b ! r) = ncols a" using rect_row_length [OF assms(2) r(2)] assms(4) by simp
  have "map2 f (a ! r) (b ! r) = map (\<lambda>c. f (a ! r ! c) (b ! r ! c)) [0..<ncols a]"
    by (rule nth_equalityI) (simp_all add: la lb)
  then show "map2 (map2 f) a b ! r = tabulate (nrows a) (ncols a) (\<lambda>r c. f (a ! r ! c) (b ! r ! c)) ! r"
    using r by (simp add: tabulate_def nrows_def)
qed

lemma mask_at_tabulate:
  "mask_at (tabulate R C f) r c = (0 \<le> r \<and> r < int R \<and> 0 \<le> c \<and> c < int C \<and> f (nat r) (nat c))"
proof (cases "R = 0")
  case True
  then show ?thesis by (auto simp add: mask_at_def)
next
  case False
  then show ?thesis by (auto simp add: mask_at_def)
qed

lemma ncols_tabulate_shape [simp]: "ncols (tabulate (nrows m) (ncols m) f) = ncols m"
  by (cases m) (simp_all add: nrows_def ncols_def tabulate_def upt_conv_Cons del: upt_Suc)

lemma neg_offsets: "d \<in> set offsets \<Longrightarrow> - d \<in> set offsets"
  by (auto simp add: offsets_def)

lemma zero_offsets: "0 \<in> set offsets"
  by (simp add: offsets_def)

lemma mask_at_inside: "mask_at m r c \<Longrightarrow> 0 \<le> r \<and> r < int (nrows m) \<and> 0 \<le> c \<and> c < int (ncols m)"
  by (simp add: mask_at_def)

lemma mask_at_erosion:
  "mask_at (binary_erosion m) r c =
     (\<forall>dr\<in>set offsets. \<forall>dc\<in>set offsets. mask_at m (r + dr) (c + dc))"
proof -
  have "mask_at m (r + 0) (c + 0)" if "\<forall>dr\<in>set offsets. \<forall>dc\<in>set offsets. mask_at m (r + dr) (c + dc)"
    using that zero_offsets by blast
  then have "0 \<le> r \<and> r < int (nrows m) \<and> 0 \<le> c \<and> c < int (ncols m)"
    if "\<forall>dr\<in>set offsets. \<forall>dc\<in>set offsets. mask_at m (r + dr) (c + dc)"
    using that mask_at_inside [of m r c] by simp
  then show ?thesis
    unfolding binary_erosion_def mask_at_tabulate list_all_iff by auto
qed

lemma mask_at_dilation:
  "mask_at (binary_dilation m) r c =
     (0 \<le> r \<and> r < int (nrows m) \<and> 0 \<le> c \<and> c < int (ncols m) \<and>
      (\<exists>dr\<in>set offsets. \<exists>dc\<in>set offsets. mask_at m (r + dr) (c + dc)))"
  unfolding binary_dilation_def mask_at_tabulate list_ex_iff by auto

lemma shape_erosion [simp]: "nrows (binary_erosion m) = nrows m"
  by (simp add: binary_erosion_def)

lemma shape_dilation [simp]: "nrows (binary_dilation m) = nrows m"
  by (simp add: binary_dilation_def)

lemma ncols_erosion [simp]: "ncols (binary_erosion m) = ncols m"
  by (simp add: binary_erosion_def)

lemma ncols_dilation [simp]: "ncols (binary_dilation m) = ncols m"
  by (simp add: binary_dilation_def)

lemma mask_at_erosion_dilation_erosion:
  "mask_at (binary_erosion (binary_dilation (binary_erosion m))) r c = mask_at (binary_erosion m) r c"
proof
  assume L: "mask_at (binary_erosion (binary_dilation (binary_erosion m))) r c"
  show "mask_at (binary_erosion m) r c"
    unfolding mask_at_erosion
  proof (intro ballI)
    fix dr dc assume d: "dr \<in> set offsets" "dc \<in> set offsets"
    from L d have "mask_at (binary_dilation (binary_erosion m)) (r + dr) (c + dc)"
      by (simp add: mask_at_erosion [of "binary_dilation (binary_erosion m)"])
    then obtain er ec where e: "er \<in> set offsets" "ec \<in> set offsets"
      and E: "mask_at (binary_erosion m) (r + dr + er) (c + dc + ec)"
      unfolding mask_at_dilation by blast
    from e have "- er \<in> set offsets" "- ec \<in> set offsets" by (simp_all add: neg_offsets)
    with E have "mask_at m (r + dr + er + - er) (c + dc + ec + - ec)"
      unfolding mask_at_erosion by blast
    then show "mask_at m (r + dr) (c + dc)" by simp
  qed
next
  assume R: "mask_at (binary_erosion m) r c"
  show "mask_at (binary_erosion (binary_dilation (binary_erosion m))) r c"
    unfolding mask_at_erosion [of "binary_dilation (binary_erosion m)"]
  proof (intro ballI)
    fix dr dc assume d: "dr \<in> set offsets" "dc \<in> set offsets"
    from R d have "mask_at m (r + dr) (c + dc)" unfolding mask_at_erosion by blast
    then have inb: "0 \<le> r + dr \<and> r + dr < int (nrows m) \<and> 0 \<le> c + dc \<and> c + dc < int (ncols m)"
      by (rule mask_at_inside)
    from d have "- dr \<in> set offsets" "- dc \<in> set offsets" by (simp_all add: neg_offsets)
    moreover have "mask_at (binary_erosion m) (r + dr + - dr) (c + dc + - dc)" using R by simp
    ultimately have "\<exists>er\<in>set offsets. \<exists>ec\<in>set offsets.
        mask_at (binary_erosion m) (r + dr + er) (c + dc + ec)" by blast
    with inb show "mask_at (binary_dilation (binary_erosion m)) (r + dr) (c + dc)"
      unfolding mask_at_dilation by simp
  qed
qed

lemma tabulate_mask_at:
  "tabulate (nrows m) (ncols m) (\<lambda>r c. mask_at m (int r) (int c)) =
   tabulate (nrows m) (ncols m) (\<lambda>r c. m ! r ! c)"
  by (rule tabulate_cong) (simp add: mask_at_def)

lemma binary_erosion_cong:
  assumes "nrows a = nrows b" "ncols a = ncols b" "\<And>r c. mask_at a r c = mask_at b r c"
  shows "binary_erosion a = binary_erosion b"
  by (simp add: binary_erosion_def assms)

lemma binary_dilation_cong:
  assumes "nrows a = nrows b" "ncols a = ncols b" "\<And>r c. mask_at a r c = mask_at b r c"
  shows "binary_dilation a = binary_dilation b"
  by (simp add: binary_dilation_def assms)

lemma binary_opening_idem: "binary_opening (binary_opening m) = binary_opening m"
  unfolding binary_opening_def
  by (rule binary_dilation_cong) (simp_all add: mask_at_erosion_dilation_erosion)

lemma mask_at_opening_sub: "mask_at (binary_opening m) r c \<Longrightarrow> mask_at m r c"
proof -
  assume "mask_at (binary_opening m) r c"
  then obtain er ec where e: "er \<in> set offsets" "ec \<in> set offsets"
      and E: "mask_at (binary_erosion m) (r + er) (c + ec)"
    unfolding binary_opening_def mask_at_dilation by blast
  from e have "- er \<in> set offsets" "- ec \<in> set offsets" by (simp_all add: neg_offsets)
  with E have "mask_at m (r + er + - er) (c + ec + - ec)"
    unfolding mask_at_erosion by blast
  then show ?thesis by simp
qed

lemma nrows_map [simp]: "nrows (map (map f) a) = nrows a"
  by (simp add: nrows_def)

lemma ncols_map [simp]: "ncols (map (map f) a) = ncols a"
  by (cases a) (simp_all add: ncols_def)

lemma rect_map [simp]: "rect a \<Longrightarrow> rect (map (map f) a)"
  by (simp add: rect_def list_all_iff)

lemma map_nth2: "rect a \<Longrightarrow> r < nrows a \<Longrightarrow> c < ncols a \<Longrightarrow> map (map f) a ! r ! c = f (a ! r ! c)"
  using rect_row_length [of a r] by (simp add: nrows_def)

lemma mask_at_nth: "r < nrows m \<Longrightarrow> c < ncols m \<Longrightarrow> mask_at m (int r) (int c) = m ! r ! c"
  by (simp add: mask_at_def)

lemma rect_opening [simp]: "rect (binary_opening m)"
  by (simp add: binary_opening_def binary_dilation_def)

lemma nrows_opening [simp]: "nrows (binary_opening m) = nrows m"
  by (simp add: binary_opening_def)

lemma ncols_opening [simp]: "ncols (binary_opening m) = ncols m"
  by (simp add: binary_opening_def)

lemma mask_times_tabulate:
  assumes "rect m" "rect a" "nrows m = nrows a" "ncols m = ncols a"
  shows "mask_times m a = tabulate (nrows a) (ncols a) (\<lambda>r c. if m ! r ! c then a ! r ! c else 0)"
proof -
  have "mask_times m a = tabulate (nrows m) (ncols m) (\<lambda>r c. (if m ! r ! c then 1 else 0) * a ! r ! c)"
    unfolding mask_times_def using assms by (intro rect_tabulate2) simp_all
  also have "\<dots> = tabulate (nrows a) (ncols a) (\<lambda>r c. if m ! r ! c then a ! r ! c else 0)"
    unfolding assms(3,4) by (rule tabulate_cong) simp
  finally show ?thesis .
qed

lemma opening_positive_nth:
  assumes "rect a" "r < nrows a" "c < ncols a" "binary_opening (positive a) ! r ! c"
  shows "0 < a ! r ! c"
proof -
  have "mask_at (binary_opening (positive a)) (int r) (int c)"
    using assms by (simp add: mask_at_nth positive_def)
  then have "mask_at (positive a) (int r) (int c)" by (rule mask_at_opening_sub)
  then show ?thesis using assms(1-3) by (simp add: mask_at_def positive_def map_nth2)
qed

section \<open>Properties of the labelling and of the separation\<close>

lemma flood_mset: "mset (fst (flood blob rest)) + mset (snd (flood blob rest)) = mset blob + mset rest"
proof (induction blob rest rule: flood.induct)
  case (1 blob rest)
  show ?case
  proof (cases "list_ex (touches blob) rest")
    case True
    have "mset (filter (touches blob) rest) + mset (filter (\<lambda>q. \<not> touches blob q) rest) = mset rest"
      by simp
    then show ?thesis using "1.IH" [OF True] by (simp add: flood_step [OF True] add.assoc)
  next
    case False
    then show ?thesis by (simp add: flood_stop)
  qed
qed

lemma components_mset: "mset (concat (components cells)) = mset cells"
proof (induction cells rule: components.induct)
  case 1
  show ?case by simp
next
  case (2 p ps)
  have "mset (fst (flood [p] ps)) + mset (snd (flood [p] ps)) = mset (p # ps)"
    using flood_mset [of "[p]" ps] by simp
  with 2 show ?case by simp
qed

lemma foreground_set:
  "(r, c) \<in> set (foreground m) \<longleftrightarrow> r < nrows m \<and> c < ncols m \<and> m ! r ! c"
  by (auto simp add: foreground_def)

lemma distinct_foreground: "distinct (foreground m)"
  by (simp add: foreground_def distinct_product)

lemma label_set: "set (concat (label m)) = set (foreground m)"
  unfolding label_def using components_mset [of "foreground m"] by (metis set_mset_mset)

lemma label_distinct: "distinct (concat (label m))"
  unfolding label_def using components_mset [of "foreground m"] distinct_foreground [of m]
  by (metis mset_eq_imp_distinct_iff)


lemma times_mask_of:
  assumes "rect a"
  shows "times_mask a (mask_of (nrows a) (ncols a) cells) = keep_cells a cells"
proof -
  let ?m = "mask_of (nrows a) (ncols a) cells"
  have "times_mask a ?m = tabulate (nrows a) (ncols a)
      (\<lambda>r c. a ! r ! c * (if ?m ! r ! c then 1 else 0))"
    unfolding times_mask_def using assms
    by (intro rect_tabulate2) (simp_all add: mask_of_def)
  also have "\<dots> = keep_cells a cells"
    unfolding keep_cells_def by (rule tabulate_cong) (simp add: mask_of_def)
  finally show ?thesis .
qed


lemma rect_mask_of [simp]: "rect (mask_of R C cells)"
  by (simp add: mask_of_def)

lemma nrows_mask_of [simp]: "nrows (mask_of R C cells) = R"
  by (simp add: mask_of_def)

lemma ncols_mask_of [simp]: "ncols (mask_of (nrows a) (ncols a) cells) = ncols a"
  by (simp add: mask_of_def)

lemma concat_filter_disjoint:
  "distinct (concat xs) \<Longrightarrow>
   set (concat (filter P xs)) \<inter> set (concat (filter (\<lambda>x. \<not> P x) xs)) = {}"
  by (induction xs) auto

lemma concat_filter_union:
  "set (concat (filter P xs)) \<union> set (concat (filter (\<lambda>x. \<not> P x) xs)) = set (concat xs)"
  by (induction xs) auto

lemma centroid_split_cells:
  assumes "rect a"
  shows "\<exists>ls rs. centroid_split com a (label (positive a)) = (keep_cells a ls, keep_cells a rs) \<and>
     set ls \<inter> set rs = {} \<and> set ls \<union> set rs = set (foreground (positive a))"
proof -
  let ?P = "\<lambda>blob. float_less (com a blob) (Finite (of_nat (ncols a div 2)))"
  let ?ls = "concat (filter ?P (label (positive a)))"
  let ?rs = "concat (filter (\<lambda>blob. \<not> ?P blob) (label (positive a)))"
  have "centroid_split com a (label (positive a)) = (keep_cells a ?ls, keep_cells a ?rs)"
    by (simp add: centroid_split_def Let_def times_mask_of [OF assms])
  moreover have "set ?ls \<inter> set ?rs = {}"
    using label_distinct by (rule concat_filter_disjoint)
  moreover have "set ?ls \<union> set ?rs = set (foreground (positive a))"
    by (simp only: concat_filter_union label_set)
  ultimately show ?thesis by blast
qed

lemma forced_split_cells:
  assumes "label (positive a) = [obj]"
  shows "set (filter (\<lambda>(r, c). c < k) obj) \<inter> set (filter (\<lambda>(r, c). k \<le> c) obj) = {}"
    and "set (filter (\<lambda>(r, c). c < k) obj) \<union> set (filter (\<lambda>(r, c). k \<le> c) obj)
      = set (foreground (positive a))"
proof -
  show "set (filter (\<lambda>(r, c). c < k) obj) \<inter> set (filter (\<lambda>(r, c). k \<le> c) obj) = {}"
    by auto
  have "set obj = set (foreground (positive a))"
    using label_set [of "positive a"] by (simp add: assms)
  then show "set (filter (\<lambda>(r, c). c < k) obj) \<union> set (filter (\<lambda>(r, c). k \<le> c) obj)
      = set (foreground (positive a))"
    by auto
qed

lemma separate_feet_cells:
  assumes "rect a" "np_sum a \<noteq> 0"
  shows "\<exists>ls rs. separate_feet com a = (keep_cells a ls, keep_cells a rs) \<and>
     set ls \<inter> set rs = {} \<and> set ls \<union> set rs = set (foreground (positive a))"
proof -
  let ?blobs = "label (positive a)"
  let ?k = "ncols a div 2"
  let ?obj = "hd ?blobs"
  let ?forced = "(keep_cells a (filter (\<lambda>(r, c). c < ?k) ?obj),
      keep_cells a (filter (\<lambda>(r, c). ?k \<le> c) ?obj))"
  have "separate_feet com a = centroid_split com a ?blobs \<or>
      (length ?blobs = 1 \<and> separate_feet com a = ?forced)"
    using assms(2) by (simp add: separate_feet_def Let_def times_mask_of [OF assms(1)])
  then show ?thesis
  proof
    assume "separate_feet com a = centroid_split com a ?blobs"
    then show ?thesis using centroid_split_cells [OF assms(1)] by simp
  next
    assume f: "length ?blobs = 1 \<and> separate_feet com a = ?forced"
    then have "?blobs = [?obj]" by (cases ?blobs) simp_all
    from forced_split_cells [OF this, of ?k] f show ?thesis by blast
  qed
qed

lemma foreground_positive:
  assumes "rect a" "r < nrows a" "c < ncols a"
  shows "(r, c) \<in> set (foreground (positive a)) \<longleftrightarrow> 0 < a ! r ! c"
  using assms by (simp add: foreground_set positive_def map_nth2)

lemma nonneg_nth: "nonneg a \<Longrightarrow> r < nrows a \<Longrightarrow> c < length (a ! r) \<Longrightarrow> 0 \<le> a ! r ! c"
  by (simp add: nonneg_def list_all_length nrows_def)

lemma keep_cells_nth:
  "r < nrows a \<Longrightarrow> c < ncols a \<Longrightarrow>
   keep_cells a cells ! r ! c = (if (r, c) \<in> set cells then a ! r ! c else 0)"
  by (simp add: keep_cells_def)

lemma rect_keep_cells [simp]: "rect (keep_cells a cells)"
  by (simp add: keep_cells_def)

lemma nrows_keep_cells [simp]: "nrows (keep_cells a cells) = nrows a"
  by (simp add: keep_cells_def)

lemma ncols_keep_cells [simp]: "ncols (keep_cells a cells) = ncols a"
  by (simp add: keep_cells_def)

lemma flood_keeps_blob: "set blob \<subseteq> set (fst (flood blob rest))"
proof (induction blob rest rule: flood.induct)
  case (1 blob rest)
  show ?case
  proof (cases "list_ex (touches blob) rest")
    case True
    from "1.IH" [OF True] show ?thesis by (simp add: flood_step [OF True])
  next
    case False
    then show ?thesis by (simp add: flood_stop)
  qed
qed

lemma components_nonempty: "blob \<in> set (components cells) \<Longrightarrow> blob \<noteq> []"
proof (induction cells rule: components.induct)
  case 1
  then show ?case by simp
next
  case (2 p ps)
  have "p \<in> set (fst (flood [p] ps))" using flood_keeps_blob [of "[p]" ps] by simp
  then have ne: "fst (flood [p] ps) \<noteq> []" by (cases "fst (flood [p] ps)") simp_all
  from "2.prems" have "blob = fst (flood [p] ps) \<or> blob \<in> set (components (snd (flood [p] ps)))"
    by (simp only: components.simps list.set insert_iff)
  then show ?case
  proof
    assume "blob = fst (flood [p] ps)"
    with ne show ?thesis by simp
  next
    assume "blob \<in> set (components (snd (flood [p] ps)))"
    then show ?thesis by (rule "2.IH")
  qed
qed

lemma sum_list_pos:
  fixes xs :: "int list"
  assumes "\<forall>x\<in>set xs. 0 \<le> x" "x \<in> set xs" "0 < x"
  shows "0 < sum_list xs"
proof -
  have "0 \<le> sum_list xs" using assms(1) by (simp add: sum_list_nonneg)
  moreover have "sum_list xs \<noteq> 0"
    using sum_list_nonneg_eq_0_iff [of xs] assms by auto
  ultimately show ?thesis by simp
qed

lemma wrap64_id: "- (2 ^ 63) \<le> x \<Longrightarrow> x < 2 ^ 63 \<Longrightarrow> wrap64 x = x"
  by (simp add: wrap64_def)

lemma wrap64_zero: "wrap64 0 = 0"
  by (simp add: wrap64_def)

lemma np_sum_exact: "0 \<le> exact_sum a \<Longrightarrow> exact_sum a < 2 ^ 63 \<Longrightarrow> np_sum a = exact_sum a"
  by (simp add: np_sum_def wrap64_id)

lemma np_sum_nonzero: "np_sum a \<noteq> 0 \<Longrightarrow> exact_sum a \<noteq> 0"
  by (auto simp add: np_sum_def wrap64_zero)

lemma exact_sum_pos:
  assumes "\<forall>row\<in>set a. \<forall>v\<in>set row. 0 \<le> v" "r < length a" "c < length (a ! r)" "0 < a ! r ! c"
  shows "0 < exact_sum a"
  unfolding exact_sum_def
proof (rule sum_list_pos)
  show "\<forall>x\<in>set (map sum_list a). 0 \<le> x" using assms(1) by (auto intro: sum_list_nonneg)
  show "sum_list (a ! r) \<in> set (map sum_list a)" using assms(2) by simp
  show "0 < sum_list (a ! r)"
  proof (rule sum_list_pos)
    show "\<forall>x\<in>set (a ! r). 0 \<le> x" using assms(1,2) nth_mem by blast
    show "a ! r ! c \<in> set (a ! r)" using assms(3) by simp
    show "0 < a ! r ! c" by (rule assms(4))
  qed
qed

lemma exact_sum_tabulate_pos:
  assumes "\<And>r c. r < R \<Longrightarrow> c < C \<Longrightarrow> 0 \<le> f r c" "r < R" "c < C" "0 < f r c"
  shows "0 < exact_sum (tabulate R C f)"
proof (rule exact_sum_pos [of _ r c])
  show "\<forall>row\<in>set (tabulate R C f). \<forall>v\<in>set row. 0 \<le> v"
    using assms(1) by (auto simp add: tabulate_def)
  show "r < length (tabulate R C f)" using assms(2) by (simp add: tabulate_def)
  show "c < length (tabulate R C f ! r)" using assms(2,3) by (simp add: tabulate_def)
  show "0 < tabulate R C f ! r ! c" using assms(2-4) by simp
qed

lemma exact_sum_tabulate_mono:
  assumes "\<And>r c. r < R \<Longrightarrow> c < C \<Longrightarrow> f r c \<le> g r c"
  shows "exact_sum (tabulate R C f) \<le> exact_sum (tabulate R C g)"
  unfolding exact_sum_def tabulate_def map_map comp_def
  using assms by (intro sum_list_mono) simp_all

lemma nonneg_rows: "nonneg a \<Longrightarrow> \<forall>row\<in>set a. \<forall>v\<in>set row. 0 \<le> v"
  by (simp add: nonneg_def list_all_iff)

lemma exact_sum_keep_cells_pos:
  assumes "rect a" "set cells \<subseteq> set (foreground (positive a))" "cells \<noteq> []"
  shows "0 < exact_sum (keep_cells a cells)"
proof -
  from assms(3) obtain r c where rc: "(r, c) \<in> set cells" by (cases cells) auto
  with assms(2) have fg: "(r, c) \<in> set (foreground (positive a))" by blast
  then have b: "r < nrows a" "c < ncols a" by (simp_all add: foreground_set positive_def)
  have pos: "0 < a ! r ! c" using fg foreground_positive [OF assms(1) b] by simp
  show ?thesis
    unfolding keep_cells_def
  proof (rule exact_sum_tabulate_pos [of _ _ _ r c])
    fix r' c' assume b': "r' < nrows a" "c' < ncols a"
    show "0 \<le> (if (r', c') \<in> set cells then a ! r' ! c' else 0)"
    proof (cases "(r', c') \<in> set cells")
      case True
      with assms(2) have "(r', c') \<in> set (foreground (positive a))" by blast
      then have "0 < a ! r' ! c'" using foreground_positive [OF assms(1) b'] by simp
      then show ?thesis using True by simp
    next
      case False
      then show ?thesis by simp
    qed
  qed (use b rc pos in simp_all)
qed

lemma exact_sum_keep_cells_le:
  assumes "rect a" "nonneg a"
  shows "exact_sum (keep_cells a cells) \<le> exact_sum a"
proof -
  have "exact_sum (keep_cells a cells) \<le> exact_sum (tabulate (nrows a) (ncols a) (\<lambda>r c. a ! r ! c))"
    unfolding keep_cells_def
  proof (rule exact_sum_tabulate_mono)
    fix r c assume b: "r < nrows a" "c < ncols a"
    have "c < length (a ! r)" using rect_row_length [OF assms(1) b(1)] b(2) by simp
    from nonneg_nth [OF assms(2) b(1) this]
    show "(if (r, c) \<in> set cells then a ! r ! c else 0) \<le> a ! r ! c" by simp
  qed
  then show ?thesis by (simp only: rect_tabulate_id [OF assms(1)])
qed

lemma np_sum_keep_cells_pos:
  assumes "rect a" "nonneg a" "exact_sum a < 2 ^ 63"
    and "set cells \<subseteq> set (foreground (positive a))" "cells \<noteq> []"
  shows "0 < np_sum (keep_cells a cells)"
proof -
  have p: "0 < exact_sum (keep_cells a cells)"
    using assms(1,4,5) by (rule exact_sum_keep_cells_pos)
  have "exact_sum (keep_cells a cells) < 2 ^ 63"
    using exact_sum_keep_cells_le [OF assms(1,2), of cells] assms(3) by simp
  with p show ?thesis by (simp add: np_sum_exact)
qed

lemma Min_Max_col_cells:
  assumes "obj \<noteq> []"
  shows "\<exists>r. (r, Min (snd ` set obj)) \<in> set obj" and "\<exists>r. (r, Max (snd ` set obj)) \<in> set obj"
proof -
  have fin: "finite (snd ` set obj)" "snd ` set obj \<noteq> {}" using assms by simp_all
  from Min_in [OF fin] obtain p where "p \<in> set obj" "snd p = Min (snd ` set obj)" by auto
  then have "(fst p, Min (snd ` set obj)) \<in> set obj" by (metis prod.collapse)
  then show "\<exists>r. (r, Min (snd ` set obj)) \<in> set obj" ..
  from Max_in [OF fin] obtain q where "q \<in> set obj" "snd q = Max (snd ` set obj)" by auto
  then have "(fst q, Max (snd ` set obj)) \<in> set obj" by (metis prod.collapse)
  then show "\<exists>r. (r, Max (snd ` set obj)) \<in> set obj" ..
qed

lemma double_pos_two: "double_pos 2 = 2"
  by (subst double_pos_scaled_up [where p = 51]) (simp_all add: rnd_even_numeral_frac)

section \<open>Claims on zones and classification\<close>

text \<open>
  C4 (as amended). For every bounding box of height \<open>max_row - min_row + 1\<close> of at least 3,
  the zones are defined and, with the default ratios, satisfy
  \<open>hind.start \<le> hind.stop = mid.start < mid.stop = fore.start < fore.stop = max_row + 1\<close>,
  with \<open>hind.start = min_row\<close>; the first inequality is strict when the height is at
  least 4. (At height 3 the hind zone is empty: \<^verbatim>\<open>int(3 * 0.3)\<close> is 0.)
\<close>

theorem zone_monotonicity:
  assumes "3 \<le> max_row - min_row + 1"
  shows "\<exists>z. get_foot_zone_indices (Some (min_row, max_row)) total_rows = Some z \<and>
    start (hind z) = min_row \<and>
    start (hind z) \<le> stop (hind z) \<and>
    (4 \<le> max_row - min_row + 1 \<longrightarrow> start (hind z) < stop (hind z)) \<and>
    stop (hind z) = start (mid z) \<and>
    start (mid z) < stop (mid z) \<and>
    stop (mid z) = start (fore z) \<and>
    start (fore z) < stop (fore z) \<and>
    stop (fore z) = max_row + 1"
proof -
  let ?h = "max_row - min_row + 1"
  note b = zone_rows_bounds [OF assms]
  have "4 \<le> ?h \<longrightarrow> 0 < hind_rows ?h" using b(4) by auto
  moreover have "0 \<le> hind_rows ?h" "0 < mid_rows ?h" "hind_rows ?h + mid_rows ?h < ?h"
    using b(1-3) by simp_all
  ultimately show ?thesis using assms
    by (simp add: get_foot_zone_indices_rows)
qed

theorem zone_monotonicity_witness:
  "(3::int) \<le> 9 - 0 + 1 \<and>
   (\<exists>z. get_foot_zone_indices (Some (0, 9)) 10 = Some z \<and>
      start (hind z) = 0 \<and> start (hind z) < stop (hind z) \<and>
      stop (hind z) = start (mid z) \<and> start (mid z) < stop (mid z) \<and>
      stop (mid z) = start (fore z) \<and> start (fore z) < stop (fore z) \<and>
      stop (fore z) = 10)"
proof -
  have h: "(3::int) \<le> 9 - 0 + 1" by simp
  from zone_monotonicity [OF h, of 10] show ?thesis by auto
qed

text \<open>
  C4 as stated fails at height 3: for the bounding box \<open>(0, 2)\<close> the zones are defined and
  the hind zone is \<open>[0, 0)\<close>, so \<open>hind.start < hind.stop\<close> does not hold.
\<close>

theorem zone_monotonicity_counterexample:
  "get_foot_zone_indices (Some (0, 2)) 3 =
     Some \<lparr>hind = \<lparr>start = 0, stop = 0\<rparr>, mid = \<lparr>start = 0, stop = 1\<rparr>,
           fore = \<lparr>start = 1, stop = 3\<rparr>\<rparr> \<and>
   \<not> (start (hind (the (get_foot_zone_indices (Some (0, 2)) 3)))
        < stop (hind (the (get_foot_zone_indices (Some (0, 2)) 3))))"
  by (simp add: get_foot_zone_indices_rows hind_rows_three mid_rows_three)

text \<open>
  C7. With the default thresholds, the floats \<^verbatim>\<open>0.21\<close> and \<^verbatim>\<open>0.26\<close>, the classifier
  returns high-arch exactly when the index is at most \<^verbatim>\<open>0.21\<close>, normal exactly when it is
  above \<^verbatim>\<open>0.21\<close> and at most \<^verbatim>\<open>0.26\<close>, and flat exactly when it is above \<^verbatim>\<open>0.26\<close>; the
  floats \<^verbatim>\<open>0.21\<close>, \<^verbatim>\<open>0.26\<close> and \<^verbatim>\<open>0.2600001\<close> classify as high-arch, normal and flat.
\<close>

theorem classify_arch_boundaries:
  "(classify_arch x = HighArch \<longleftrightarrow> x \<le> double (21 / 100)) \<and>
   (classify_arch x = NormalArch \<longleftrightarrow> double (21 / 100) < x \<and> x \<le> double (26 / 100)) \<and>
   (classify_arch x = FlatFoot \<longleftrightarrow> double (26 / 100) < x) \<and>
   classify_arch (double (21 / 100)) = HighArch \<and>
   classify_arch (double (26 / 100)) = NormalArch \<and>
   classify_arch (double (2600001 / 10000000)) = FlatFoot"
proof -
  have lt: "high_arch < normal" by (simp add: high_arch_value normal_value)
  have "double_pos (2600001 / 10000000) = 4683745413905167 / 2 ^ 54"
    by (subst double_pos_scaled_up [where p = 54]) (simp_all add: rnd_even_numeral_frac)
  then have d: "double (2600001 / 10000000) = 4683745413905167 / 2 ^ 54"
    by (simp only: double_def) simp
  have gt: "normal < double (2600001 / 10000000)"
    unfolding d by (simp add: normal_value)
  have e1: "double (21 / 100) = high_arch" by (simp only: high_arch_def)
  have e2: "double (26 / 100) = normal" by (simp only: normal_def)
  show ?thesis unfolding e1 e2 using lt gt
    by (auto simp add: classify_arch_def)
qed

section \<open>Claim on the noise filter\<close>

text \<open>
  C6. Filtering an already filtered grid changes nothing: for every (rectangular) grid,
  the noise filter (threshold at the default 5, 3 by 3 binary opening, re-masking)
  applied to its own output returns that output.
\<close>

theorem noise_filter_idempotent:
  assumes "rect p"
  shows "noise_filtered (noise_filtered p) = noise_filtered p"
proof (cases "np_max p = 0")
  case True
  then show ?thesis by (simp add: noise_filtered_def)
next
  case False
  define t where "t = np_where_gt p noise_threshold"
  define opn where "opn = binary_opening (positive t)"
  define q where "q = mask_times opn t"
  let ?R = "nrows p" and ?C = "ncols p"
  have rt: "rect t" and nt: "nrows t = ?R" and ct: "ncols t = ?C"
    using assms by (simp_all add: t_def np_where_gt_def)
  have ropn: "rect opn" and nopn: "nrows opn = ?R" and copn: "ncols opn = ?C"
    by (simp_all add: opn_def positive_def nt ct)
  have q_tab: "q = tabulate ?R ?C (\<lambda>r c. if opn ! r ! c then t ! r ! c else 0)"
    unfolding q_def using mask_times_tabulate [OF ropn rt] by (simp add: nopn copn nt ct)
  have rq: "rect q" and nq: "nrows q = ?R" and cq: "ncols q = ?C"
    by (simp_all add: q_tab)
  have t_val: "t ! r ! c = 0 \<or> noise_threshold < t ! r ! c" if "r < ?R" "c < ?C" for r c
    using that assms by (simp add: t_def np_where_gt_def map_nth2)
  have opn_pos: "0 < t ! r ! c" if "r < ?R" "c < ?C" "opn ! r ! c" for r c
    using opening_positive_nth [OF rt, of r c] that by (simp add: opn_def nt ct)
  have q_val: "q ! r ! c = (if opn ! r ! c then t ! r ! c else 0)" if "r < ?R" "c < ?C" for r c
    using that by (simp add: q_tab)
  have q_big: "(noise_threshold < q ! r ! c) = opn ! r ! c" if "r < ?R" "c < ?C" for r c
    using q_val [OF that] t_val [OF that] opn_pos [OF that] by (auto simp add: noise_threshold_def)
  have q_pos: "(0 < q ! r ! c) = opn ! r ! c" if "r < ?R" "c < ?C" for r c
    using q_val [OF that] opn_pos [OF that] by auto
  have nf: "noise_filtered p = q"
    using False by (simp add: noise_filtered_def Let_def q_def opn_def t_def)
  show ?thesis
  proof (cases "np_max q = 0")
    case True
    then have "noise_filtered q = q" by (simp add: noise_filtered_def)
    then show ?thesis by (simp only: nf)
  next
    case nz: False
    have "np_where_gt q noise_threshold = tabulate ?R ?C (\<lambda>r c. if noise_threshold < q ! r ! c then q ! r ! c else 0)"
      unfolding np_where_gt_def using rect_tabulate [OF rq, symmetric] by (simp add: nq cq)
    also have "\<dots> = tabulate ?R ?C (\<lambda>r c. q ! r ! c)"
      by (rule tabulate_cong) (use q_big q_val in auto)
    also have "\<dots> = q" using rect_tabulate_id [OF rq] by (simp add: nq cq)
    finally have t': "np_where_gt q noise_threshold = q" .
    have "positive q = tabulate ?R ?C (\<lambda>r c. 0 < q ! r ! c)"
      unfolding positive_def using rect_tabulate [OF rq, symmetric] by (simp add: nq cq)
    also have "\<dots> = tabulate ?R ?C (\<lambda>r c. opn ! r ! c)"
      by (rule tabulate_cong) (use q_pos in auto)
    also have "\<dots> = opn" using rect_tabulate_id [OF ropn] by (simp add: nopn copn)
    finally have p': "positive q = opn" .
    have o': "binary_opening opn = opn" unfolding opn_def by (rule binary_opening_idem)
    have "mask_times opn q = tabulate ?R ?C (\<lambda>r c. if opn ! r ! c then q ! r ! c else 0)"
      using mask_times_tabulate [OF ropn rq] by (simp add: nopn copn nq cq)
    also have "\<dots> = tabulate ?R ?C (\<lambda>r c. q ! r ! c)"
      by (rule tabulate_cong) (use q_val in auto)
    also have "\<dots> = q" using rect_tabulate_id [OF rq] by (simp add: nq cq)
    finally have m': "mask_times opn q = q" .
    have "noise_filtered q = q"
      using nz by (simp add: noise_filtered_def Let_def t' p' o' m')
    then show ?thesis by (simp only: nf)
  qed
qed


theorem noise_filter_idempotent_witness:
  "rect [[0, 0, 0, 0], [0, 9, 9, 9], [0, 9, 9, 9], [3, 9, 9, 9], [0, 0, 0, 9 :: int]] \<and>
   noise_filtered (noise_filtered [[0, 0, 0, 0], [0, 9, 9, 9], [0, 9, 9, 9], [3, 9, 9, 9], [0, 0, 0, 9]])
     = noise_filtered [[0, 0, 0, 0], [0, 9, 9, 9], [0, 9, 9, 9], [3, 9, 9, 9], [0, 0, 0, 9]]"
proof -
  have r: "rect [[0, 0, 0, 0], [0, 9, 9, 9], [0, 9, 9, 9], [3, 9, 9, 9], [0, 0, 0, 9 :: int]]"
    by (simp add: rect_def ncols_def)
  from noise_filter_idempotent [OF r] r show ?thesis by simp
qed

section \<open>Claims on the foot separation\<close>

text \<open>
  Three grids for the examples below. Each is left unchanged by the noise filter, so each
  is a cleaned grid. The first has two components, three columns wide, on either side of
  an empty column; the second is one component over the columns 2 to 4 of six; the third is
  one component over the columns 1 to 4 of six whose twelve cells are \<open>2 ^ 62\<close> each, so
  that their sum, \<open>3 * 2 ^ 64\<close>, is zero in 64-bit arithmetic.
\<close>

abbreviation two_feet_grid :: grid where
  "two_feet_grid \<equiv> [[9, 9, 9, 0, 9, 9, 9], [9, 9, 9, 0, 9, 9, 9], [9, 9, 9, 0, 9, 9, 9]]"

abbreviation merged_grid :: grid where
  "merged_grid \<equiv> [[0, 0, 7, 7, 7, 0], [0, 0, 7, 7, 7, 0], [0, 0, 7, 7, 7, 0]]"

abbreviation overflow_grid :: grid where
  "overflow_grid \<equiv>
     [[0, 2 ^ 62, 2 ^ 62, 2 ^ 62, 2 ^ 62, 0], [0, 2 ^ 62, 2 ^ 62, 2 ^ 62, 2 ^ 62, 0],
      [0, 2 ^ 62, 2 ^ 62, 2 ^ 62, 2 ^ 62, 0]]"

lemma label_two_feet_grid:
  "label (positive two_feet_grid) =
     [[(0, 0), (0, 1), (1, 0), (0, 2), (1, 1), (2, 0), (1, 2), (2, 1), (2, 2)],
      [(0, 4), (0, 5), (1, 4), (0, 6), (1, 5), (2, 4), (1, 6), (2, 5), (2, 6)]]"
  by (simp add: label_def positive_def foreground_def nrows_def
      ncols_def upt_conv_Cons touches_def flood_step flood_stop del: upt_Suc)

lemma label_merged_grid:
  "label (positive merged_grid) =
     [[(0, 2), (0, 3), (1, 2), (0, 4), (1, 3), (2, 2), (1, 4), (2, 3), (2, 4)]]"
  by (simp add: label_def positive_def foreground_def nrows_def
      ncols_def upt_conv_Cons touches_def flood_step flood_stop del: upt_Suc)

lemma label_overflow_grid:
  "label (positive overflow_grid) =
     [[(0, 1), (0, 2), (1, 1), (0, 3), (1, 2), (2, 1), (0, 4), (1, 3), (2, 2),
       (1, 4), (2, 3), (2, 4)]]"
  by (simp add: label_def positive_def foreground_def nrows_def
      ncols_def upt_conv_Cons touches_def flood_step flood_stop del: upt_Suc)

lemma cleaned_two_feet_grid: "noise_filtered two_feet_grid = two_feet_grid"
  by (simp add: noise_filtered_def np_max_def np_where_gt_def
      noise_threshold_def mask_times_def binary_opening_def binary_erosion_def
      binary_dilation_def positive_def tabulate_def mask_at_def offsets_def nrows_def ncols_def
      upt_conv_Cons Let_def del: upt_Suc)

lemma cleaned_merged_grid: "noise_filtered merged_grid = merged_grid"
  by (simp add: noise_filtered_def np_max_def np_where_gt_def
      noise_threshold_def mask_times_def binary_opening_def binary_erosion_def
      binary_dilation_def positive_def tabulate_def mask_at_def offsets_def nrows_def ncols_def
      upt_conv_Cons Let_def del: upt_Suc)

lemma cleaned_overflow_grid: "noise_filtered overflow_grid = overflow_grid"
  by (simp add: noise_filtered_def np_max_def np_where_gt_def
      noise_threshold_def mask_times_def binary_opening_def binary_erosion_def
      binary_dilation_def positive_def tabulate_def mask_at_def offsets_def nrows_def ncols_def
      upt_conv_Cons Let_def del: upt_Suc)

text \<open>
  C1. Mass conservation: for every cleaned grid (a rectangular \<^verbatim>\<open>int64\<close> array with no
  negative cell), whenever \<^verbatim>\<open>_separate_feet\<close> commits a result, that is, whenever
  \<^verbatim>\<open>np.sum(array)\<close> is nonzero and the early return is not taken, the left and right foot
  grids add up to the cleaned grid at every cell, and no cell is nonzero in both. This
  holds on the forced-split path and on the centroid path alike, whatever
  \<^verbatim>\<open>center_of_mass\<close> returns. (By \<open>np_sum_exact\<close>, a grid whose total is nonzero and below
  \<open>2 ^ 63\<close> has a nonzero \<^verbatim>\<open>np.sum\<close>.)
\<close>

theorem mass_conservation:
  assumes "rect a" and "nonneg a" and "int64_array a" and "np_sum a \<noteq> 0"
    and "r < nrows a" and "c < ncols a"
  shows "fst (separate_feet com a) ! r ! c + snd (separate_feet com a) ! r ! c = a ! r ! c \<and>
    \<not> (fst (separate_feet com a) ! r ! c \<noteq> 0 \<and> snd (separate_feet com a) ! r ! c \<noteq> 0)"
proof -
  from separate_feet_cells [OF assms(1,4)] obtain ls rs
    where s: "separate_feet com a = (keep_cells a ls, keep_cells a rs)"
      and d: "set ls \<inter> set rs = {}" and u: "set ls \<union> set rs = set (foreground (positive a))"
    by blast
  have len: "c < length (a ! r)" using rect_row_length [OF assms(1,5)] assms(6) by simp
  have z: "a ! r ! c = 0" if "(r, c) \<notin> set ls" "(r, c) \<notin> set rs"
  proof -
    from that u have "(r, c) \<notin> set (foreground (positive a))" by blast
    then have "\<not> 0 < a ! r ! c" using foreground_positive [OF assms(1,5,6)] by simp
    with nonneg_nth [OF assms(2,5) len] show ?thesis by simp
  qed
  show ?thesis
    using d z by (auto simp add: s keep_cells_nth [OF assms(5,6)])
qed

text \<open>
  The theorem at the grid with two components, at the cell in row 1 and column 4. The
  centres of mass of the two components are the columns 1.0 and 5.0, so the component of
  the cell \<open>(0, 0)\<close> is the left foot and the other is the right foot.
\<close>

theorem mass_conservation_witness:
  "noise_filtered two_feet_grid = two_feet_grid \<and>
   rect two_feet_grid \<and> nonneg two_feet_grid \<and> int64_array two_feet_grid \<and>
   np_sum two_feet_grid \<noteq> 0 \<and>
   separate_feet (\<lambda>a blob. Finite (if (0, 0) \<in> set blob then 1 else 5)) two_feet_grid =
     ([[9, 9, 9, 0, 0, 0, 0], [9, 9, 9, 0, 0, 0, 0], [9, 9, 9, 0, 0, 0, 0]],
      [[0, 0, 0, 0, 9, 9, 9], [0, 0, 0, 0, 9, 9, 9], [0, 0, 0, 0, 9, 9, 9]]) \<and>
   fst (separate_feet (\<lambda>a blob. Finite (if (0, 0) \<in> set blob then 1 else 5)) two_feet_grid) ! 1 ! 4
     + snd (separate_feet (\<lambda>a blob. Finite (if (0, 0) \<in> set blob then 1 else 5)) two_feet_grid) ! 1 ! 4
     = 9"
proof -
  let ?com = "\<lambda>(a :: grid) (blob :: cell list). Finite (if (0, 0) \<in> set blob then 1 else 5)"
  have h: "rect two_feet_grid" "nonneg two_feet_grid" "int64_array two_feet_grid"
    "np_sum two_feet_grid \<noteq> 0" "1 < nrows two_feet_grid" "4 < ncols two_feet_grid"
    by (simp_all add: rect_def nonneg_def int64_array_def np_sum_def exact_sum_def wrap64_def
        nrows_def ncols_def)
  have s: "separate_feet ?com two_feet_grid =
     ([[9, 9, 9, 0, 0, 0, 0], [9, 9, 9, 0, 0, 0, 0], [9, 9, 9, 0, 0, 0, 0]],
      [[0, 0, 0, 0, 9, 9, 9], [0, 0, 0, 0, 9, 9, 9], [0, 0, 0, 0, 9, 9, 9]])"
    unfolding separate_feet_def label_two_feet_grid
    by (simp add: np_sum_def exact_sum_def wrap64_def centroid_split_def times_mask_def
        mask_of_def tabulate_def nrows_def ncols_def upt_conv_Cons Let_def del: upt_Suc)
  from mass_conservation [OF h, of ?com] have
    "fst (separate_feet ?com two_feet_grid) ! 1 ! 4
       + snd (separate_feet ?com two_feet_grid) ! 1 ! 4 = 9"
    by simp
  with cleaned_two_feet_grid h(1-4) s show ?thesis by blast
qed

text \<open>
  C3 (as amended). Forced split of a merged blob. Let the binary mask of a cleaned grid be
  exactly one connected component whose column slice \<open>[min_col, max_col)\<close> strictly
  straddles the midline \<open>mid = C div 2\<close> (\<open>min_col < mid < max_col\<close>) and whose width
  \<open>max_col - min_col\<close> exceeds the float \<^verbatim>\<open>C / 3\<close>; \<open>max_col\<close> is the stop of the slice, one
  past the greatest column of the component. Then, unless \<^verbatim>\<open>np.sum(array)\<close> is zero,
  \<^verbatim>\<open>_separate_feet\<close> returns the component's cells left of \<open>mid\<close> as the left foot and
  its cells at or right of \<open>mid\<close> as the right foot when the \<^verbatim>\<open>int64\<close> sums of both halves
  are positive, and the centroid-based assignment otherwise. In particular, when no cell
  is negative and the total pressure is below \<open>2 ^ 63\<close>, so that no sum wraps around, the
  split is committed and both output grids have nonzero pressure.
\<close>

theorem forced_split:
  assumes "rect a" and "int64_array a"
    and "label (positive a) = [obj]"
    and "Min (snd ` set obj) < ncols a div 2"
    and "ncols a div 2 < Max (snd ` set obj) + 1"
    and "fdiv (of_nat (ncols a)) 3 < of_nat (Max (snd ` set obj) + 1 - Min (snd ` set obj))"
  shows "(np_sum a \<noteq> 0 \<longrightarrow>
       separate_feet com a =
         (if 0 < np_sum (keep_cells a (filter (\<lambda>(r, c). c < ncols a div 2) obj)) \<and>
             0 < np_sum (keep_cells a (filter (\<lambda>(r, c). ncols a div 2 \<le> c) obj))
          then (keep_cells a (filter (\<lambda>(r, c). c < ncols a div 2) obj),
                keep_cells a (filter (\<lambda>(r, c). ncols a div 2 \<le> c) obj))
          else centroid_split com a [obj])) \<and>
    (nonneg a \<and> exact_sum a < 2 ^ 63 \<longrightarrow>
       separate_feet com a =
         (keep_cells a (filter (\<lambda>(r, c). c < ncols a div 2) obj),
          keep_cells a (filter (\<lambda>(r, c). ncols a div 2 \<le> c) obj)) \<and>
       0 < np_sum (fst (separate_feet com a)) \<and> 0 < np_sum (snd (separate_feet com a)))"
proof -
  define k where "k = ncols a div 2"
  define mn where "mn = Min (snd ` set obj)"
  define mx where "mx = Max (snd ` set obj)"
  define ls where "ls = filter (\<lambda>(r, c). c < k) obj"
  define rs where "rs = filter (\<lambda>(r, c). k \<le> c) obj"
  have c: "mn < k" "k < mx + 1" "fdiv (of_nat (ncols a)) 3 < of_nat (mx + 1 - mn)"
    using assms(4-6) by (simp_all add: k_def mn_def mx_def)
  have code: "separate_feet com a =
      (if 0 < np_sum (keep_cells a ls) \<and> 0 < np_sum (keep_cells a rs)
       then (keep_cells a ls, keep_cells a rs) else centroid_split com a [obj])"
    if "np_sum a \<noteq> 0"
    using that c unfolding mn_def mx_def ls_def rs_def k_def
    by (simp add: separate_feet_def Let_def assms(3) times_mask_of [OF assms(1)])
  have commit: "separate_feet com a = (keep_cells a ls, keep_cells a rs) \<and>
      0 < np_sum (keep_cells a ls) \<and> 0 < np_sum (keep_cells a rs)"
    if nn: "nonneg a" and bound: "exact_sum a < 2 ^ 63"
  proof -
    have "obj \<in> set (components (foreground (positive a)))"
      using assms(3) by (simp add: label_def)
    then have ne: "obj \<noteq> []" by (rule components_nonempty)
    have fg: "set obj = set (foreground (positive a))"
      using label_set [of "positive a"] by (simp add: assms(3))
    from Min_Max_col_cells [OF ne] obtain r1 r2
      where r1: "(r1, mn) \<in> set obj" and r2: "(r2, mx) \<in> set obj"
      unfolding mn_def mx_def by blast
    have "(r1, mn) \<in> set ls" using r1 c(1) by (simp add: ls_def)
    then have lne: "ls \<noteq> []" by (cases ls) simp_all
    have "(r2, mx) \<in> set rs" using r2 c(2) by (simp add: rs_def)
    then have rne: "rs \<noteq> []" by (cases rs) simp_all
    have lsub: "set ls \<subseteq> set (foreground (positive a))"
      unfolding ls_def fg [symmetric] by (rule filter_is_subset)
    have rsub: "set rs \<subseteq> set (foreground (positive a))"
      unfolding rs_def fg [symmetric] by (rule filter_is_subset)
    have lpos: "0 < np_sum (keep_cells a ls)"
      using assms(1) nn bound lsub lne by (rule np_sum_keep_cells_pos)
    have rpos: "0 < np_sum (keep_cells a rs)"
      using assms(1) nn bound rsub rne by (rule np_sum_keep_cells_pos)
    have b1: "r1 < nrows a" "mn < ncols a"
      using r1 fg by (simp_all add: foreground_set positive_def)
    have p1: "0 < a ! r1 ! mn"
      using r1 fg foreground_positive [OF assms(1) b1] by simp
    have len1: "mn < length (a ! r1)" using rect_row_length [OF assms(1) b1(1)] b1(2) by simp
    have "0 < exact_sum a"
      using nonneg_rows [OF nn] b1(1) [unfolded nrows_def] len1 p1 by (rule exact_sum_pos)
    with bound have "np_sum a \<noteq> 0" by (simp add: np_sum_exact)
    from code [OF this] lpos rpos show ?thesis by simp
  qed
  show ?thesis
    using code commit unfolding ls_def rs_def k_def by simp
qed

text \<open>
  The theorem at the grid with one component over the columns 2 to 4 of six: the slice is
  \<open>[2, 5)\<close>, the midline is 3 and the width 3 exceeds \<^verbatim>\<open>6 / 3 = 2.0\<close>.
\<close>

theorem forced_split_witness:
  "noise_filtered merged_grid = merged_grid \<and>
   rect merged_grid \<and> int64_array merged_grid \<and> nonneg merged_grid \<and>
   np_sum merged_grid \<noteq> 0 \<and> exact_sum merged_grid < 2 ^ 63 \<and>
   label (positive merged_grid) =
     [[(0, 2), (0, 3), (1, 2), (0, 4), (1, 3), (2, 2), (1, 4), (2, 3), (2, 4)]] \<and>
   separate_feet (\<lambda>a blob. NaN) merged_grid =
     ([[0, 0, 7, 0, 0, 0], [0, 0, 7, 0, 0, 0], [0, 0, 7, 0, 0, 0]],
      [[0, 0, 0, 7, 7, 0], [0, 0, 0, 7, 7, 0], [0, 0, 0, 7, 7, 0]]) \<and>
   0 < np_sum (fst (separate_feet (\<lambda>a blob. NaN) merged_grid)) \<and>
   0 < np_sum (snd (separate_feet (\<lambda>a blob. NaN) merged_grid))"
proof -
  let ?obj = "[(0, 2), (0, 3), (1, 2), (0, 4), (1, 3), (2, 2), (1, 4), (2, 3), (2, 4)] :: cell list"
  let ?com = "\<lambda>(a :: grid) (blob :: cell list). NaN"
  have h1: "rect merged_grid" and h2: "int64_array merged_grid" and nn: "nonneg merged_grid"
    by (simp_all add: rect_def int64_array_def nonneg_def ncols_def)
  have sums: "np_sum merged_grid \<noteq> 0" "exact_sum merged_grid < 2 ^ 63"
    by (simp_all add: np_sum_def exact_sum_def wrap64_def)
  have h3: "label (positive merged_grid) = [?obj]" by (rule label_merged_grid)
  have nc: "ncols merged_grid = 6" by (simp add: ncols_def)
  have h4: "Min (snd ` set ?obj) < ncols merged_grid div 2" by (simp add: nc)
  have h5: "ncols merged_grid div 2 < Max (snd ` set ?obj) + 1" by (simp add: nc)
  have h6: "fdiv (of_nat (ncols merged_grid)) 3
      < of_nat (Max (snd ` set ?obj) + 1 - Min (snd ` set ?obj))"
    by (simp add: nc fdiv_def double_nonneg_eq double_pos_two)
  have k: "keep_cells merged_grid (filter (\<lambda>(r, c). c < ncols merged_grid div 2) ?obj)
      = [[0, 0, 7, 0, 0, 0], [0, 0, 7, 0, 0, 0], [0, 0, 7, 0, 0, 0]]"
    "keep_cells merged_grid (filter (\<lambda>(r, c). ncols merged_grid div 2 \<le> c) ?obj)
      = [[0, 0, 0, 7, 7, 0], [0, 0, 0, 7, 7, 0], [0, 0, 0, 7, 7, 0]]"
    by (simp_all add: nc keep_cells_def tabulate_def nrows_def upt_conv_Cons del: upt_Suc)
  from forced_split [OF h1 h2 h3 h4 h5 h6, of ?com] nn sums(2) have
    "separate_feet ?com merged_grid =
       ([[0, 0, 7, 0, 0, 0], [0, 0, 7, 0, 0, 0], [0, 0, 7, 0, 0, 0]],
        [[0, 0, 0, 7, 7, 0], [0, 0, 0, 7, 7, 0], [0, 0, 0, 7, 7, 0]]) \<and>
     0 < np_sum (fst (separate_feet ?com merged_grid)) \<and>
     0 < np_sum (snd (separate_feet ?com merged_grid))"
    unfolding k by blast
  with cleaned_merged_grid h1 h2 nn sums h3 show ?thesis by blast
qed

text \<open>
  C3 as stated fails where the sum wraps around. The grid of twelve cells \<open>2 ^ 62\<close> is a
  cleaned grid with one component, the slice \<open>[1, 5)\<close> of its columns straddles the midline
  3 and the width 4 exceeds \<^verbatim>\<open>6 / 3 = 2.0\<close>; but \<^verbatim>\<open>np.sum(array)\<close> is zero, and both outputs
  are the empty array: no cell is assigned to either foot. The early return comes before
  every call of \<^verbatim>\<open>center_of_mass\<close>, which is taken here as the function that is not a
  number everywhere.
\<close>

theorem forced_split_counterexample:
  "noise_filtered overflow_grid = overflow_grid \<and>
   rect overflow_grid \<and> int64_array overflow_grid \<and> nonneg overflow_grid \<and>
   exact_sum overflow_grid = 3 * 2 ^ 64 \<and> np_sum overflow_grid = 0 \<and>
   label (positive overflow_grid) =
     [[(0, 1), (0, 2), (1, 1), (0, 3), (1, 2), (2, 1), (0, 4), (1, 3), (2, 2),
       (1, 4), (2, 3), (2, 4)]] \<and>
   (1 :: nat) < ncols overflow_grid div 2 \<and> ncols overflow_grid div 2 < (5 :: nat) \<and>
   fdiv (of_nat (ncols overflow_grid)) 3 < of_nat (5 - 1) \<and>
   separate_feet (\<lambda>a blob. NaN) overflow_grid = ([], [])"
proof -
  have h: "rect overflow_grid" "int64_array overflow_grid" "nonneg overflow_grid"
    by (simp_all add: rect_def int64_array_def nonneg_def ncols_def)
  have sums: "exact_sum overflow_grid = 3 * 2 ^ 64" "np_sum overflow_grid = 0"
    by (simp_all add: np_sum_def exact_sum_def wrap64_def)
  have w: "(1 :: nat) < ncols overflow_grid div 2" "ncols overflow_grid div 2 < (5 :: nat)"
    "fdiv (of_nat (ncols overflow_grid)) 3 < of_nat (5 - 1)"
    by (simp_all add: ncols_def fdiv_def double_nonneg_eq double_pos_two)
  have s: "separate_feet (\<lambda>a blob. NaN) overflow_grid = ([], [])"
    unfolding separate_feet_def sums(2) by (simp only: refl if_True)
  from cleaned_overflow_grid h sums label_overflow_grid w s show ?thesis
    by blast
qed





end
